theory Spec2Isabelle
  imports Complex_Main "HOL-Library.Log_Nat"
begin

section \<open>Controlled and uncontrolled state (Counter, FilterChip)\<close>

text \<open>
  \<^verbatim>\<open>useControllableState({ value, defaultValue, onChange })\<close> keeps one cell of React state,
  initialised with \<^verbatim>\<open>defaultValue\<close>. The hook instance is a record: the \<^verbatim>\<open>value\<close> prop
  (\<open>None\<close> is \<^verbatim>\<open>undefined\<close>), the state cell, whether an \<^verbatim>\<open>onChange\<close> prop was given, and the
  arguments \<^verbatim>\<open>onChange\<close> has been called with so far, oldest first. The same hook text
  appears in Counter (on numbers) and in FilterChip (generic), so the element type is a
  parameter.
\<close>

record 'a controllable =
  value_prop :: "'a option"
  state :: 'a
  has_onChange :: bool
  onChange_calls :: "'a list"

definition useState_init :: "'a option \<Rightarrow> 'a \<Rightarrow> bool \<Rightarrow> 'a controllable" where
  "useState_init v defaultValue cb =
     \<lparr>value_prop = v, state = defaultValue, has_onChange = cb, onChange_calls = []\<rparr>"

definition isControlled :: "'a controllable \<Rightarrow> bool" where
  "isControlled h = (value_prop h \<noteq> None)"

definition current :: "'a controllable \<Rightarrow> 'a" where
  "current h = (case value_prop h of Some v \<Rightarrow> v | None \<Rightarrow> state h)"

text \<open>\<^verbatim>\<open>onChange?.(next)\<close>: the call happens only when the prop was given.\<close>

definition call_onChange :: "'a \<Rightarrow> 'a controllable \<Rightarrow> 'a controllable" where
  "call_onChange next h =
     (if has_onChange h then h\<lparr>onChange_calls := onChange_calls h @ [next]\<rparr> else h)"

definition set_state :: "'a \<Rightarrow> 'a controllable \<Rightarrow> 'a controllable" where
  "set_state next h =
     call_onChange next (if \<not> isControlled h then h\<lparr>state := next\<rparr> else h)"


section \<open>Errors\<close>

text \<open>
  The errors a render can raise: a \<^verbatim>\<open>RangeError\<close> (from an \<^verbatim>\<open>Intl\<close> constructor given a
  malformed locale, and from the array constructor given a length above \<open>2 ^ 32 - 1\<close>) and a
  \<^verbatim>\<open>TypeError\<close> (from reading a property of \<^verbatim>\<open>undefined\<close>). No widget catches either.
\<close>

datatype error = RangeError | TypeError

section \<open>JavaScript numbers\<close>

text \<open>
  A JavaScript number is an IEEE 754 double: a finite value, negative zero, one of the two
  infinities, or \<^verbatim>\<open>NaN\<close>. A finite value other than negative zero is given by the real
  number it stands for (\<open>Fin 0\<close> is positive zero); the reals that are doubles are those
  accepted by \<open>is_double\<close> below. Every arithmetic operation computes the exact real result
  and rounds it to the nearest double, a tie going to the double with an even significand;
  a result of magnitude \<open>2 ^ 1024\<close> or more after rounding is an infinity.
\<close>

datatype jsnum = Fin real | NegZero | PosInf | NegInf | NaN

text \<open>
  The binary exponent of a real \<open>x \<noteq> 0\<close>: the integer \<open>e\<close> with \<open>2 powi e \<le> \<bar>x\<bar>\<close> and \<open>\<bar>x\<bar> < 2 powi (e + 1)\<close>
  (\<open>exponent_bounds\<close> and \<open>exponent_unique\<close> below), computed from the number of bits of
  \<open>\<lfloor>\<bar>x\<bar>\<rfloor>\<close> or of \<open>\<lceil>1 / \<bar>x\<bar>\<rceil> - 1\<close>.
\<close>

definition exponent :: "real \<Rightarrow> int" where
  "exponent x =
     (if 1 \<le> \<bar>x\<bar> then bitlen \<lfloor>\<bar>x\<bar>\<rfloor> - 1 else - bitlen (\<lceil>1 / \<bar>x\<bar>\<rceil> - 1))"

text \<open>
  The spacing of the doubles around \<open>x\<close>: 52 binary places below the exponent, and
  \<open>2 powi (- 1074)\<close> throughout the subnormal range.
\<close>

definition quantum :: "real \<Rightarrow> real" where
  "quantum x = 2 powi (max (exponent x) (- 1022) - 52)"

definition round_half_even :: "real \<Rightarrow> int" where
  "round_half_even t =
     (let f = \<lfloor>t\<rfloor>
      in if t - of_int f < 1 / 2 then f
         else if 1 / 2 < t - of_int f then f + 1
         else if even f then f else f + 1)"

definition round_value :: "real \<Rightarrow> real" where
  "round_value x = of_int (round_half_even (x / quantum x)) * quantum x"

definition overflow_threshold :: real where
  "overflow_threshold = 2 ^ 1024"

definition round_double :: "real \<Rightarrow> jsnum" where
  "round_double x =
     (if overflow_threshold \<le> round_value x then PosInf
      else if round_value x \<le> - overflow_threshold then NegInf
      else Fin (round_value x))"

definition is_double :: "real \<Rightarrow> bool" where
  "is_double x =
     (of_int \<lfloor>x / quantum x\<rfloor> = x / quantum x \<and> \<bar>x\<bar> < overflow_threshold)"

definition is_number :: "jsnum \<Rightarrow> bool" where
  "is_number a = (case a of Fin x \<Rightarrow> is_double x | _ \<Rightarrow> True)"

fun isNaN :: "jsnum \<Rightarrow> bool" where
  "isNaN NaN = True"
| "isNaN _ = False"

text \<open>\<^verbatim>\<open>Number.isFinite\<close>.\<close>

fun isFinite :: "jsnum \<Rightarrow> bool" where
  "isFinite (Fin x) = True"
| "isFinite NegZero = True"
| "isFinite _ = False"

text \<open>
  The real value of a finite number, the rank of a number among the finite numbers and
  the infinities, and the sign bit.
\<close>

fun val :: "jsnum \<Rightarrow> real" where
  "val (Fin x) = x"
| "val _ = 0"

fun rank :: "jsnum \<Rightarrow> int" where
  "rank PosInf = 1"
| "rank NegInf = - 1"
| "rank _ = 0"

fun signbit :: "jsnum \<Rightarrow> bool" where
  "signbit (Fin x) = (x < 0)"
| "signbit NegZero = True"
| "signbit NegInf = True"
| "signbit _ = False"

text \<open>
  The comparisons \<^verbatim>\<open><\<close>, \<^verbatim>\<open><=\<close> and \<^verbatim>\<open>===\<close>: false whenever an operand is \<^verbatim>\<open>NaN\<close>, and blind
  to the sign of zero. \<^verbatim>\<open>a > b\<close> is \<open>js_lt b a\<close>, \<^verbatim>\<open>a >= b\<close> is \<open>js_le b a\<close> and
  \<^verbatim>\<open>a !== b\<close> is \<open>\<not> js_eq a b\<close>.
\<close>

definition js_lt :: "jsnum \<Rightarrow> jsnum \<Rightarrow> bool" where
  "js_lt a b =
     (\<not> isNaN a \<and> \<not> isNaN b \<and> (rank a < rank b \<or> (rank a = rank b \<and> val a < val b)))"

definition js_le :: "jsnum \<Rightarrow> jsnum \<Rightarrow> bool" where
  "js_le a b =
     (\<not> isNaN a \<and> \<not> isNaN b \<and> (rank a < rank b \<or> (rank a = rank b \<and> val a \<le> val b)))"

definition js_eq :: "jsnum \<Rightarrow> jsnum \<Rightarrow> bool" where
  "js_eq a b = (\<not> isNaN a \<and> \<not> isNaN b \<and> rank a = rank b \<and> val a = val b)"

text \<open>A zero result takes the sign the operation prescribes.\<close>

definition signed_zero :: "bool \<Rightarrow> jsnum \<Rightarrow> jsnum" where
  "signed_zero negative r = (if r = Fin 0 \<and> negative then NegZero else r)"

fun js_neg :: "jsnum \<Rightarrow> jsnum" where
  "js_neg (Fin x) = (if x = 0 then NegZero else Fin (- x))"
| "js_neg NegZero = Fin 0"
| "js_neg PosInf = NegInf"
| "js_neg NegInf = PosInf"
| "js_neg NaN = NaN"

text \<open>
  Addition: a zero sum is negative only when both operands are negative zero; an infinity
  absorbs a finite operand; opposite infinities give \<^verbatim>\<open>NaN\<close>.
\<close>

definition js_add :: "jsnum \<Rightarrow> jsnum \<Rightarrow> jsnum" where
  "js_add a b =
     (if isNaN a \<or> isNaN b then NaN
      else if isFinite a \<and> isFinite b
        then signed_zero (a = NegZero \<and> b = NegZero) (round_double (val a + val b))
      else if isFinite a then b
      else if isFinite b then a
      else if a = b then a else NaN)"

definition js_sub :: "jsnum \<Rightarrow> jsnum \<Rightarrow> jsnum" where
  "js_sub a b = js_add a (js_neg b)"

text \<open>
  Multiplication and division: the sign of the result is the exclusive or of the signs of
  the operands; zero times an infinity, zero over zero and an infinity over an infinity
  are \<^verbatim>\<open>NaN\<close>; a nonzero number over zero is an infinity; a finite number over an infinity
  is a zero.
\<close>

definition js_mul :: "jsnum \<Rightarrow> jsnum \<Rightarrow> jsnum" where
  "js_mul a b =
     (if isNaN a \<or> isNaN b then NaN
      else if isFinite a \<and> isFinite b
        then signed_zero (signbit a \<noteq> signbit b) (round_double (val a * val b))
      else if (isFinite a \<and> val a = 0) \<or> (isFinite b \<and> val b = 0) then NaN
      else if signbit a \<noteq> signbit b then NegInf else PosInf)"

definition js_div :: "jsnum \<Rightarrow> jsnum \<Rightarrow> jsnum" where
  "js_div a b =
     (if isNaN a \<or> isNaN b then NaN
      else if \<not> isFinite a
        then (if \<not> isFinite b then NaN else if signbit a \<noteq> signbit b then NegInf else PosInf)
      else if \<not> isFinite b then (if signbit a \<noteq> signbit b then NegZero else Fin 0)
      else if val b = 0
        then (if val a = 0 then NaN else if signbit a \<noteq> signbit b then NegInf else PosInf)
      else signed_zero (signbit a \<noteq> signbit b) (round_double (val a / val b)))"

text \<open>
  \<^verbatim>\<open>Math.min\<close> and \<^verbatim>\<open>Math.max\<close> of two numbers: \<^verbatim>\<open>NaN\<close> when an operand is \<^verbatim>\<open>NaN\<close>; negative
  zero counts as smaller than positive zero.
\<close>

definition Math_min :: "jsnum \<Rightarrow> jsnum \<Rightarrow> jsnum" where
  "Math_min a b =
     (if isNaN a \<or> isNaN b then NaN
      else if js_lt a b then a else if js_lt b a then b
      else if a = NegZero then a else b)"

definition Math_max :: "jsnum \<Rightarrow> jsnum \<Rightarrow> jsnum" where
  "Math_max a b =
     (if isNaN a \<or> isNaN b then NaN
      else if js_lt a b then b else if js_lt b a then a
      else if a = NegZero then b else a)"

text \<open>
  \<^verbatim>\<open>Math.round\<close>: the nearest integer, a tie going up; \<^verbatim>\<open>Math.ceil\<close>: the least integer
  not below. A negative number that rounds to zero gives negative zero.
\<close>

fun Math_round :: "jsnum \<Rightarrow> jsnum" where
  "Math_round (Fin x) = signed_zero (x < 0) (Fin (of_int \<lfloor>x + 1 / 2\<rfloor>))"
| "Math_round a = a"

fun Math_ceil :: "jsnum \<Rightarrow> jsnum" where
  "Math_ceil (Fin x) = signed_zero (x < 0) (Fin (of_int \<lceil>x\<rceil>))"
| "Math_ceil a = a"

text \<open>
  The length that \<^verbatim>\<open>Array.from({ length: n }, f)\<close> allocates: \<^verbatim>\<open>n\<close> is truncated to an
  integer, \<^verbatim>\<open>NaN\<close> and negative values count as 0, and the array constructor throws a
  \<^verbatim>\<open>RangeError\<close> for a length above \<open>2 ^ 32 - 1\<close>.
\<close>

definition array_length :: "jsnum \<Rightarrow> error + nat" where
  "array_length n =
     (case n of
        Fin v \<Rightarrow> if v < 1 then Inr 0
                 else if \<lfloor>v\<rfloor> \<le> 4294967295 then Inr (nat \<lfloor>v\<rfloor>) else Inl RangeError
      | PosInf \<Rightarrow> Inl RangeError
      | _ \<Rightarrow> Inr 0)"

section \<open>Counter\<close>

text \<open>The Counter's numeric props and its hook.\<close>

record counter =
  hook :: "jsnum controllable"
  min_prop :: jsnum
  max_prop :: jsnum
  step :: jsnum
  disabled :: bool

definition count :: "counter \<Rightarrow> jsnum" where
  "count c = current (hook c)"

definition setCount :: "jsnum \<Rightarrow> counter \<Rightarrow> counter" where
  "setCount next c = c\<lparr>hook := set_state next (hook c)\<rparr>"

definition inc :: "counter \<Rightarrow> counter" where
  "inc c =
     (if disabled c then c
      else setCount (Math_min (js_add (count c) (step c)) (max_prop c)) c)"

definition dec :: "counter \<Rightarrow> counter" where
  "dec c =
     (if disabled c then c
      else setCount (Math_max (js_sub (count c) (step c)) (min_prop c)) c)"

text \<open>
  The two buttons: the minus button carries \<^verbatim>\<open>disabled={disabled || count <= min}\<close> and
  the plus button \<^verbatim>\<open>disabled={disabled || count >= max}\<close>; a click on a disabled button
  runs no handler.
\<close>

definition minus_disabled :: "counter \<Rightarrow> bool" where
  "minus_disabled c = (disabled c \<or> js_le (count c) (min_prop c))"

definition plus_disabled :: "counter \<Rightarrow> bool" where
  "plus_disabled c = (disabled c \<or> js_le (max_prop c) (count c))"

definition clickMinus :: "counter \<Rightarrow> counter" where
  "clickMinus c = (if minus_disabled c then c else dec c)"

definition clickPlus :: "counter \<Rightarrow> counter" where
  "clickPlus c = (if plus_disabled c then c else inc c)"

text \<open>A freshly mounted Counter: the props, and the hook in its initial state.\<close>

definition mkCounter ::
  "jsnum option \<Rightarrow> jsnum \<Rightarrow> bool \<Rightarrow> jsnum \<Rightarrow> jsnum \<Rightarrow> jsnum \<Rightarrow> bool \<Rightarrow> counter" where
  "mkCounter v defaultValue cb lo hi s dis =
     \<lparr>hook = useState_init v defaultValue cb, min_prop = lo, max_prop = hi, step = s,
      disabled = dis\<rparr>"

section \<open>Breadcrumb\<close>

text \<open>
  A JavaScript array slot holds a value or \<^verbatim>\<open>undefined\<close> (\<open>None\<close>): reading \<^verbatim>\<open>items[0]\<close>
  from an empty array yields \<^verbatim>\<open>undefined\<close>, it does not raise.
\<close>

type_synonym 'a js_array = "'a option list"

definition index0 :: "'a js_array \<Rightarrow> 'a option" where
  "index0 xs = (case xs of [] \<Rightarrow> None | x # _ \<Rightarrow> x)"

text \<open>
  \<^verbatim>\<open>Array.prototype.slice(start, end)\<close> on integers: a negative index counts from the
  end, both indices are clipped to the array, and an empty range gives the empty array.
\<close>

definition slice :: "'a list \<Rightarrow> int \<Rightarrow> int \<Rightarrow> 'a list" where
  "slice xs start fin =
     (let len = int (length xs);
          k = (if start < 0 then max (len + start) 0 else min start len);
          final = (if fin < 0 then max (len + fin) 0 else min fin len)
      in take (nat (final - k)) (drop (nat k) xs))"

definition slice_from :: "'a list \<Rightarrow> int \<Rightarrow> 'a list" where
  "slice_from xs start = slice xs start (int (length xs))"

record 'a displayed =
  head :: "'a js_array"
  middle :: "'a js_array"
  tail :: "'a js_array"

definition getDisplayedItems :: "'a js_array \<Rightarrow> int \<Rightarrow> int \<Rightarrow> 'a displayed" where
  "getDisplayedItems items maxItems tailCount =
     (if int (length items) \<le> maxItems
      then \<lparr>head = items, middle = [], tail = []\<rparr>
      else
        let h = [index0 items];
            t = slice_from items (- max 2 tailCount);
            m = slice items 1 (int (length items) - int (length t))
        in \<lparr>head = h, middle = m, tail = t\<rparr>)"


section \<open>Pagination\<close>

datatype RangeItem = Page jsnum | Ellipsis

definition clamp :: "jsnum \<Rightarrow> jsnum \<Rightarrow> jsnum \<Rightarrow> jsnum" where
  "clamp n lo hi = Math_max lo (Math_min n hi)"

text \<open>
  \<^verbatim>\<open>range(start, end)\<close>: empty when \<^verbatim>\<open>end < start\<close>, else
  \<^verbatim>\<open>Array.from({ length: end - start + 1 }, (_, i) => start + i)\<close>.
\<close>

definition range_js :: "jsnum \<Rightarrow> jsnum \<Rightarrow> error + jsnum list" where
  "range_js start fin =
     (if js_lt fin start then Inr []
      else (case array_length (js_add (js_sub fin start) (Fin 1)) of
              Inl e \<Rightarrow> Inl e
            | Inr n \<Rightarrow> Inr (map (\<lambda>i. js_add start (Fin (of_nat i))) [0..<n])))"

text \<open>
  \<^verbatim>\<open>items.includes(p)\<close> compares by SameValueZero: numbers as \<^verbatim>\<open>===\<close> does, except that
  \<^verbatim>\<open>NaN\<close> equals \<^verbatim>\<open>NaN\<close>; the string \<^verbatim>\<open>"ellipsis"\<close> equals no number.
\<close>

definition same_value_zero :: "jsnum \<Rightarrow> jsnum \<Rightarrow> bool" where
  "same_value_zero a b = (js_eq a b \<or> (isNaN a \<and> isNaN b))"

fun items_includes :: "RangeItem list \<Rightarrow> jsnum \<Rightarrow> bool" where
  "items_includes [] p = False"
| "items_includes (Page q # xs) p = (same_value_zero q p \<or> items_includes xs p)"
| "items_includes (Ellipsis # xs) p = items_includes xs p"

text \<open>The loop \<^verbatim>\<open>for (const p of endPages) if (!items.includes(p)) items.push(p)\<close>.\<close>

fun push_missing :: "RangeItem list \<Rightarrow> jsnum list \<Rightarrow> RangeItem list" where
  "push_missing items [] = items"
| "push_missing items (p # ps) =
     push_missing (if items_includes items p then items else items @ [Page p]) ps"

definition buildRange :: "jsnum \<Rightarrow> jsnum \<Rightarrow> jsnum \<Rightarrow> jsnum \<Rightarrow> error + RangeItem list" where
  "buildRange page totalPages siblingCount boundaryCount =
     (case range_js (Fin 1) (Math_min boundaryCount totalPages) of
        Inl e \<Rightarrow> Inl e
      | Inr startPages \<Rightarrow>
     (case range_js
             (Math_max (js_add (js_sub totalPages boundaryCount) (Fin 1))
                (js_add boundaryCount (Fin 1)))
             totalPages of
        Inl e \<Rightarrow> Inl e
      | Inr endPages \<Rightarrow>
     (let left = Math_max (js_sub page siblingCount) (js_add boundaryCount (Fin 1));
          right = Math_min (js_add page siblingCount) (js_sub totalPages boundaryCount)
      in case range_js left right of
           Inl e \<Rightarrow> Inl e
         | Inr middlePages \<Rightarrow>
             Inr (push_missing
                    (map Page startPages
                     @ (if js_lt (js_add boundaryCount (Fin 1)) left then [Ellipsis] else [])
                     @ map Page middlePages
                     @ (if js_lt right (js_sub totalPages boundaryCount) then [Ellipsis]
                        else []))
                    endPages))))"

text \<open>
  The props of a Pagination that its page logic reads. Each handler returns the arguments
  it passes to \<^verbatim>\<open>onPageChange\<close>, in order.
\<close>

record pagination =
  page :: jsnum
  pageSize :: jsnum
  total :: jsnum
  siblingCount :: jsnum
  boundaryCount :: jsnum
  pg_disabled :: bool

definition totalPages :: "pagination \<Rightarrow> jsnum" where
  "totalPages p =
     Math_max (Fin 1) (Math_ceil (js_div (total p) (Math_max (Fin 1) (pageSize p))))"

definition safePage :: "pagination \<Rightarrow> jsnum" where
  "safePage p = clamp (page p) (Fin 1) (totalPages p)"

text \<open>The effect \<^verbatim>\<open>if (page !== safePage) onPageChange(safePage)\<close>; it reads no \<^verbatim>\<open>disabled\<close>.\<close>

definition effect :: "pagination \<Rightarrow> jsnum list" where
  "effect p = (if \<not> js_eq (page p) (safePage p) then [safePage p] else [])"

definition goTo :: "pagination \<Rightarrow> jsnum \<Rightarrow> jsnum list" where
  "goTo p n =
     (if pg_disabled p then []
      else let nxt = clamp n (Fin 1) (totalPages p)
           in if \<not> js_eq nxt (page p) then [nxt] else [])"

definition next_page :: "pagination \<Rightarrow> jsnum list" where
  "next_page p = goTo p (js_add (page p) (Fin 1))"

definition prev_page :: "pagination \<Rightarrow> jsnum list" where
  "prev_page p = goTo p (js_sub (page p) (Fin 1))"

definition first_page :: "pagination \<Rightarrow> jsnum list" where
  "first_page p = goTo p (Fin 1)"

definition last_page :: "pagination \<Rightarrow> jsnum list" where
  "last_page p = goTo p (totalPages p)"

text \<open>The range computed by every render; a \<^verbatim>\<open>RangeError\<close> from it ends the render.\<close>

definition pg_items :: "pagination \<Rightarrow> error + RangeItem list" where
  "pg_items p = buildRange (page p) (totalPages p) (siblingCount p) (boundaryCount p)"

text \<open>The four tests of \<^verbatim>\<open>onKeyDown\<close> run one after the other, after the \<^verbatim>\<open>disabled\<close> guard.\<close>

definition onKeyDown :: "pagination \<Rightarrow> string \<Rightarrow> jsnum list" where
  "onKeyDown p key =
     (if pg_disabled p then []
      else (if key = ''ArrowRight'' then next_page p else [])
         @ (if key = ''ArrowLeft'' then prev_page p else [])
         @ (if key = ''Home'' then first_page p else [])
         @ (if key = ''End'' then last_page p else []))"

text \<open>
  What can make the component call \<^verbatim>\<open>onPageChange\<close>: the corrective effect, a click on the
  \<open>i\<close>-th entry of the rendered range (an ellipsis is no button), the four navigation
  buttons, whose \<^verbatim>\<open>disabled\<close> attribute keeps the browser from delivering the click, and a
  key pressed on the container. When the render throws, nothing is mounted: no effect runs
  and there is nothing to click or to press a key on.
\<close>

datatype pg_event =
  RunEffect | ClickItem nat | ClickFirst | ClickPrev | ClickNext | ClickLast | KeyDown string

definition clickItem :: "pagination \<Rightarrow> RangeItem list \<Rightarrow> nat \<Rightarrow> jsnum list" where
  "clickItem p items i =
     (if i < length items
      then (case items ! i of
              Page n \<Rightarrow> (if pg_disabled p then [] else goTo p n)
            | Ellipsis \<Rightarrow> [])
      else [])"

fun handle :: "pagination \<Rightarrow> RangeItem list \<Rightarrow> pg_event \<Rightarrow> jsnum list" where
  "handle p items RunEffect = effect p"
| "handle p items (ClickItem i) = clickItem p items i"
| "handle p items ClickFirst =
     (if pg_disabled p \<or> js_le (page p) (Fin 1) then [] else first_page p)"
| "handle p items ClickPrev =
     (if pg_disabled p \<or> js_le (page p) (Fin 1) then [] else prev_page p)"
| "handle p items ClickNext =
     (if pg_disabled p \<or> js_le (totalPages p) (page p) then [] else next_page p)"
| "handle p items ClickLast =
     (if pg_disabled p \<or> js_le (totalPages p) (page p) then [] else last_page p)"
| "handle p items (KeyDown key) = onKeyDown p key"

definition fire :: "pagination \<Rightarrow> pg_event \<Rightarrow> jsnum list" where
  "fire p ev = (case pg_items p of Inl e \<Rightarrow> [] | Inr items \<Rightarrow> handle p items ev)"

text \<open>The page numbers of a rendered range, in order, with the ellipses left out.\<close>

fun pageNumbers :: "RangeItem list \<Rightarrow> jsnum list" where
  "pageNumbers [] = []"
| "pageNumbers (Page n # xs) = n # pageNumbers xs"
| "pageNumbers (Ellipsis # xs) = pageNumbers xs"

text \<open>
  An ellipsis is in order when it sits between two page numbers that leave at least one
  page out between them.
\<close>

fun ellipses_ok :: "RangeItem list \<Rightarrow> bool" where
  "ellipses_ok [] = True"
| "ellipses_ok (Page a # Ellipsis # Page b # xs) =
     (js_lt (js_add a (Fin 1)) b \<and> ellipses_ok (Page b # xs))"
| "ellipses_ok (Ellipsis # xs) = False"
| "ellipses_ok (Page a # xs) = ellipses_ok xs"

text \<open>The number that stands for a whole number.\<close>

definition whole :: "int \<Rightarrow> jsnum" where
  "whole n = Fin (of_int n)"

section \<open>ProgressBar\<close>

definition ProgressBar_clamp :: "jsnum \<Rightarrow> jsnum \<Rightarrow> jsnum \<Rightarrow> jsnum" where
  "ProgressBar_clamp v lo hi = (if isFinite v then Math_min hi (Math_max lo v) else lo)"

record progressBar =
  pb_value :: jsnum
  pb_min :: jsnum
  pb_max :: jsnum
  indeterminate :: bool

definition safeMin :: "progressBar \<Rightarrow> jsnum" where
  "safeMin b = Math_min (pb_min b) (pb_max b)"

definition safeMax :: "progressBar \<Rightarrow> jsnum" where
  "safeMax b = Math_max (pb_min b) (pb_max b)"

definition span :: "progressBar \<Rightarrow> jsnum" where
  "span b = Math_max (Fin 1) (js_sub (safeMax b) (safeMin b))"

definition pVal :: "progressBar \<Rightarrow> jsnum" where
  "pVal b =
     ProgressBar_clamp (js_mul (js_div (js_sub (pb_value b) (safeMin b)) (span b)) (Fin 100))
       (Fin 0) (Fin 100)"

text \<open>\<^verbatim>\<open>aria-valuenow\<close>; \<open>None\<close> is \<^verbatim>\<open>undefined\<close>.\<close>

definition ariaNow :: "progressBar \<Rightarrow> jsnum option" where
  "ariaNow b = (if indeterminate b then None else Some (Math_round (pVal b)))"

text \<open>
  The percentage as the specification words it, \<^verbatim>\<open>100 * (value - min') / max(1, max' - min')\<close>
  clamped to \<^verbatim>\<open>[0, 100]\<close>: once in double arithmetic in the order written, and once in exact
  real arithmetic on finite inputs.
\<close>

definition percentage_as_specified :: "progressBar \<Rightarrow> jsnum" where
  "percentage_as_specified b =
     ProgressBar_clamp
       (js_div (js_mul (Fin 100) (js_sub (pb_value b) (Math_min (pb_min b) (pb_max b))))
          (Math_max (Fin 1)
             (js_sub (Math_max (pb_min b) (pb_max b)) (Math_min (pb_min b) (pb_max b)))))
       (Fin 0) (Fin 100)"

definition exact_percentage :: "real \<Rightarrow> real \<Rightarrow> real \<Rightarrow> real" where
  "exact_percentage v lo hi =
     max 0 (min 100 (100 * (v - min lo hi) / max 1 (max lo hi - min lo hi)))"

section \<open>RatingStars\<close>

definition RatingStars_clamp :: "jsnum \<Rightarrow> jsnum \<Rightarrow> jsnum" where
  "RatingStars_clamp maxRating n = Math_max (Fin 0) (Math_min maxRating n)"

definition roundTo :: "jsnum \<Rightarrow> jsnum \<Rightarrow> jsnum" where
  "roundTo precision n = js_mul (Math_round (js_div n precision)) precision"

definition rounded :: "jsnum \<Rightarrow> jsnum \<Rightarrow> jsnum \<Rightarrow> jsnum" where
  "rounded rating maxRating precision =
     roundTo precision (RatingStars_clamp maxRating rating)"

section \<open>Size tables\<close>

text \<open>
  Reading \<^verbatim>\<open>table[key]\<close> from an object literal with string values gives the string stored
  under an own key, a member inherited from \<^verbatim>\<open>Object.prototype\<close> (a function or an object,
  and so truthy) under one of that prototype's names, and \<^verbatim>\<open>undefined\<close> otherwise.
\<close>

datatype jsval = Undefined | Str string | Inherited

definition Object_prototype_keys :: "string list" where
  "Object_prototype_keys =
     [''constructor'', ''toString'', ''toLocaleString'', ''valueOf'', ''hasOwnProperty'',
      ''isPrototypeOf'', ''propertyIsEnumerable'', ''__proto__'', ''__defineGetter__'',
      ''__defineSetter__'', ''__lookupGetter__'', ''__lookupSetter__'']"

definition get_prop :: "(string \<times> string) list \<Rightarrow> string \<Rightarrow> jsval" where
  "get_prop table key =
     (case map_of table key of
        Some v \<Rightarrow> Str v
      | None \<Rightarrow> if key \<in> set Object_prototype_keys then Inherited else Undefined)"

fun truthy :: "jsval \<Rightarrow> bool" where
  "truthy Undefined = False"
| "truthy (Str s) = (s \<noteq> [])"
| "truthy Inherited = True"

definition Badge_sizes :: "(string \<times> string) list" where
  "Badge_sizes =
     [(''xs'', ''px-1.5 py-0.5 text-xs''), (''sm'', ''px-2 py-0.5 text-xs''),
      (''md'', ''px-2.5 py-1 text-sm''), (''lg'', ''px-3 py-1.5 text-base''),
      (''xl'', ''px-4 py-2 text-lg'')]"

definition RatingStars_sizeStyles :: "(string \<times> string) list" where
  "RatingStars_sizeStyles =
     [(''xs'', ''w-3 h-3''), (''sm'', ''w-4 h-4''), (''md'', ''w-5 h-5''),
      (''lg'', ''w-6 h-6''), (''xl'', ''w-8 h-8'')]"

definition Avatar_sizeStyles :: "(string \<times> string) list" where
  "Avatar_sizeStyles =
     [(''xs'', ''w-6 h-6 text-[10px] leading-none''), (''sm'', ''w-8 h-8 text-xs''),
      (''md'', ''w-10 h-10 text-sm''), (''lg'', ''w-12 h-12 text-base''),
      (''xl'', ''w-16 h-16 text-lg''), (''2xl'', ''w-20 h-20 text-xl'')]"

definition Counter_sizeStyles :: "(string \<times> string) list" where
  "Counter_sizeStyles =
     [(''sm'', ''h-8 text-sm rounded-md''), (''md'', ''h-10 text-base rounded-lg''),
      (''lg'', ''h-12 text-lg rounded-xl'')]"

text \<open>
  Badge, RatingStars and Avatar share one line,
  \<^verbatim>\<open>const safeSize = table[size] ? size : "md"\<close>, and then read \<^verbatim>\<open>table[safeSize]\<close>.
\<close>

definition safeSize :: "(string \<times> string) list \<Rightarrow> string \<Rightarrow> string" where
  "safeSize table sz = (if truthy (get_prop table sz) then sz else ''md'')"

definition Badge_size_class :: "string \<Rightarrow> jsval" where
  "Badge_size_class sz = get_prop Badge_sizes (safeSize Badge_sizes sz)"

definition RatingStars_starSize :: "string \<Rightarrow> jsval" where
  "RatingStars_starSize sz =
     get_prop RatingStars_sizeStyles (safeSize RatingStars_sizeStyles sz)"

definition Avatar_size_class :: "string \<Rightarrow> jsval" where
  "Avatar_size_class sz = get_prop Avatar_sizeStyles (safeSize Avatar_sizeStyles sz)"

text \<open>Counter: \<^verbatim>\<open>const safeSize = sizeStyles[size]\<close>, with no test.\<close>

definition Counter_safeSize :: "string \<Rightarrow> jsval" where
  "Counter_safeSize sz = get_prop Counter_sizeStyles sz"


section \<open>Size tables whose entries are objects (Tooltip, Tag)\<close>










section \<open>Dates\<close>

text \<open>
  A \<^verbatim>\<open>Date\<close> is its time value, in milliseconds since the epoch, read in local time
  with every day 86400000 ms long (no daylight saving shift); the limit of the time range
  (\<open>\<plusminus>\<close>8.64e15 ms) and invalid dates are not modelled. The calendar functions follow the
  definitions of ECMAScript (Day, TimeWithinDay, DaysInYear, DayFromYear, YearFromTime,
  MonthFromTime, DateFromTime, WeekDay, MakeDay, MakeDate), on day numbers.
\<close>

type_synonym date = int

definition msPerDay :: int where
  "msPerDay = 86400000"

definition Day :: "date \<Rightarrow> int" where
  "Day t = t div msPerDay"

definition TimeWithinDay :: "date \<Rightarrow> int" where
  "TimeWithinDay t = t mod msPerDay"

definition DaysInYear :: "int \<Rightarrow> int" where
  "DaysInYear y =
     (if y mod 4 \<noteq> 0 then 365 else if y mod 100 \<noteq> 0 then 366
      else if y mod 400 \<noteq> 0 then 365 else 366)"

definition DayFromYear :: "int \<Rightarrow> int" where
  "DayFromYear y =
     365 * (y - 1970) + (y - 1969) div 4 - (y - 1901) div 100 + (y - 1601) div 400"

text \<open>
  ECMAScript's YearFromTime is the largest year \<open>y\<close> with \<open>DayFromYear y \<le> day\<close>. It is
  computed from the estimate \<open>1970 + \<lfloor>400 * day / 146097\<rfloor>\<close>, which is off by at most one
  (\<open>YearFromDay_bounds\<close> and \<open>YearFromDay_unique\<close> below show that the result is that year).
\<close>

definition YearFromDay :: "int \<Rightarrow> int" where
  "YearFromDay d =
     (let y = 1970 + (400 * d) div 146097
      in if DayFromYear (y + 1) \<le> d then y + 1
         else if DayFromYear y \<le> d then y else y - 1)"

definition InLeapYear :: "int \<Rightarrow> int" where
  "InLeapYear y = (if DaysInYear y = 366 then 1 else 0)"

definition DayWithinYear :: "int \<Rightarrow> int" where
  "DayWithinYear d = d - DayFromYear (YearFromDay d)"

text \<open>The day within the year on which month \<open>m\<close> (0 to 11) starts; \<open>l\<close> is 1 in a leap year.\<close>

definition month_start :: "int \<Rightarrow> int \<Rightarrow> int" where
  "month_start m l =
     (if m = 0 then 0 else if m = 1 then 31 else if m = 2 then 59 + l
      else if m = 3 then 90 + l else if m = 4 then 120 + l else if m = 5 then 151 + l
      else if m = 6 then 181 + l else if m = 7 then 212 + l else if m = 8 then 243 + l
      else if m = 9 then 273 + l else if m = 10 then 304 + l else 334 + l)"

definition MonthFromDay :: "int \<Rightarrow> int" where
  "MonthFromDay d =
     (let w = DayWithinYear d; l = InLeapYear (YearFromDay d)
      in if w < 31 then 0 else if w < 59 + l then 1 else if w < 90 + l then 2
         else if w < 120 + l then 3 else if w < 151 + l then 4 else if w < 181 + l then 5
         else if w < 212 + l then 6 else if w < 243 + l then 7 else if w < 273 + l then 8
         else if w < 304 + l then 9 else if w < 334 + l then 10 else 11)"

definition DateFromDay :: "int \<Rightarrow> int" where
  "DateFromDay d =
     DayWithinYear d - month_start (MonthFromDay d) (InLeapYear (YearFromDay d)) + 1"

definition WeekDay :: "int \<Rightarrow> int" where
  "WeekDay d = (d + 4) mod 7"

definition MakeDay :: "int \<Rightarrow> int \<Rightarrow> int \<Rightarrow> int" where
  "MakeDay year month dt =
     (let ym = year + month div 12; mn = month mod 12
      in DayFromYear ym + month_start mn (InLeapYear ym) + dt - 1)"

definition MakeDate :: "int \<Rightarrow> int \<Rightarrow> date" where
  "MakeDate day time = day * msPerDay + time"

text \<open>
  \<^verbatim>\<open>new Date(year, month, day)\<close>. The constructor maps a year from 0 to 99 to 1900 to
  1999; \<^verbatim>\<open>setDate\<close>, \<^verbatim>\<open>setMonth\<close> and the getters do not.
\<close>

definition new_Date :: "int \<Rightarrow> int \<Rightarrow> int \<Rightarrow> date" where
  "new_Date year month dt =
     MakeDate (MakeDay (if 0 \<le> year \<and> year \<le> 99 then 1900 + year else year) month dt) 0"

definition getFullYear :: "date \<Rightarrow> int" where
  "getFullYear t = YearFromDay (Day t)"

definition getMonth :: "date \<Rightarrow> int" where
  "getMonth t = MonthFromDay (Day t)"

definition getDate :: "date \<Rightarrow> int" where
  "getDate t = DateFromDay (Day t)"

definition getDay :: "date \<Rightarrow> int" where
  "getDay t = WeekDay (Day t)"

definition setDate :: "date \<Rightarrow> int \<Rightarrow> date" where
  "setDate t dt = MakeDate (MakeDay (getFullYear t) (getMonth t) dt) (TimeWithinDay t)"

definition setMonth :: "date \<Rightarrow> int \<Rightarrow> date" where
  "setMonth t m = MakeDate (MakeDay (getFullYear t) m (getDate t)) (TimeWithinDay t)"

text \<open>The remainder operator \<^verbatim>\<open>%\<close> on integers: the sign of the dividend.\<close>

definition js_rem :: "int \<Rightarrow> int \<Rightarrow> int" where
  "js_rem a b = sgn a * (\<bar>a\<bar> mod \<bar>b\<bar>)"

section \<open>DateInput\<close>

definition startOfDay :: "date \<Rightarrow> date" where
  "startOfDay d = new_Date (getFullYear d) (getMonth d) (getDate d)"

definition addMonths :: "date \<Rightarrow> int \<Rightarrow> date" where
  "addMonths d months = setMonth d (getMonth d + months)"

text \<open>
  DateInput's own \<^verbatim>\<open>clamp\<close>, on dates: \<^verbatim>\<open>if (min && d < min) return startOfDay(min)\<close>,
  then the same test against \<^verbatim>\<open>max\<close>, then \<^verbatim>\<open>d\<close>.
\<close>

definition clamp_date :: "date \<Rightarrow> date option \<Rightarrow> date option \<Rightarrow> date" where
  "clamp_date d lo hi =
     (if (case lo of Some m \<Rightarrow> d < m | None \<Rightarrow> False)
      then (case lo of Some m \<Rightarrow> startOfDay m | None \<Rightarrow> d)
      else if (case hi of Some m \<Rightarrow> d > m | None \<Rightarrow> False)
      then (case hi of Some m \<Rightarrow> startOfDay m | None \<Rightarrow> d)
      else d)"

definition getMonthMatrix :: "date \<Rightarrow> int \<Rightarrow> date list list" where
  "getMonthMatrix viewDate firstDay =
     (let firstOfMonth = new_Date (getFullYear viewDate) (getMonth viewDate) 1;
          firstWeekDay = js_rem (getDay firstOfMonth + (7 - firstDay)) 7;
          start = setDate firstOfMonth (getDate firstOfMonth - firstWeekDay)
      in map (\<lambda>w. map (\<lambda>d. setDate start (getDate start + w * 7 + d)) [0..6]) [0..5])"

text \<open>
  The props the date logic reads (\<open>None\<close> is an absent prop), and the component's state
  together with the log of the arguments passed to \<^verbatim>\<open>onChange\<close> (\<open>None\<close> is \<^verbatim>\<open>null\<close>).
\<close>

record dateInput =
  di_value :: "date option"
  di_has_onChange :: bool
  di_min :: "date option"
  di_max :: "date option"
  di_disabled :: bool
  disabledDates :: "(date \<Rightarrow> bool) option"
  firstDayOfWeek :: int
  locale_prop :: string

record dateInput_state =
  isOpen :: bool
  viewDate :: date
  focusedDay :: "date option"
  di_calls :: "date option list"

definition isOutOfRange :: "dateInput \<Rightarrow> date \<Rightarrow> bool" where
  "isOutOfRange P d =
     ((case di_min P of Some m \<Rightarrow> d < startOfDay m | None \<Rightarrow> False) \<or>
      (case di_max P of Some m \<Rightarrow> d > startOfDay m | None \<Rightarrow> False))"

definition isDisabled :: "dateInput \<Rightarrow> date \<Rightarrow> bool" where
  "isDisabled P d =
     ((case disabledDates P of Some f \<Rightarrow> f d | None \<Rightarrow> False) \<or> isOutOfRange P d)"

definition di_onChange :: "dateInput \<Rightarrow> date option \<Rightarrow> dateInput_state \<Rightarrow> dateInput_state" where
  "di_onChange P v S = (if di_has_onChange P then S\<lparr>di_calls := di_calls S @ [v]\<rparr> else S)"

definition open_calendar :: "dateInput \<Rightarrow> dateInput_state \<Rightarrow> dateInput_state" where
  "open_calendar P S =
     (if di_disabled P then S
      else S\<lparr>isOpen := True,
             focusedDay :=
               Some (startOfDay (case di_value P of Some v \<Rightarrow> v | None \<Rightarrow> viewDate S))\<rparr>)"

definition selectDate :: "dateInput \<Rightarrow> date \<Rightarrow> dateInput_state \<Rightarrow> dateInput_state" where
  "selectDate P d S =
     (if isDisabled P d \<or> di_disabled P then S
      else (di_onChange P (Some (startOfDay d)) S)\<lparr>isOpen := False\<rparr>)"

definition clearDate :: "dateInput \<Rightarrow> dateInput_state \<Rightarrow> dateInput_state" where
  "clearDate P S =
     (if di_disabled P then S else (di_onChange P None S)\<lparr>focusedDay := None\<rparr>)"

definition move_focus :: "date \<Rightarrow> dateInput_state \<Rightarrow> dateInput_state" where
  "move_focus nxt S =
     S\<lparr>focusedDay := Some nxt, viewDate := new_Date (getFullYear nxt) (getMonth nxt) 1\<rparr>"

definition handleGridKeyDown :: "dateInput \<Rightarrow> string \<Rightarrow> dateInput_state \<Rightarrow> dateInput_state" where
  "handleGridKeyDown P key S =
     (case focusedDay S of
        None \<Rightarrow> S
      | Some f \<Rightarrow>
          if key = ''ArrowRight'' then move_focus (setDate f (getDate f + 1)) S
          else if key = ''ArrowLeft'' then move_focus (setDate f (getDate f - 1)) S
          else if key = ''ArrowDown'' then move_focus (setDate f (getDate f + 7)) S
          else if key = ''ArrowUp'' then move_focus (setDate f (getDate f - 7)) S
          else if key = ''Home'' then move_focus (new_Date (getFullYear f) (getMonth f) 1) S
          else if key = ''End'' then move_focus (new_Date (getFullYear f) (getMonth f + 1) 0) S
          else if key = ''PageUp'' then move_focus (addMonths f (- 1)) S
          else if key = ''PageDown'' then move_focus (addMonths f 1) S
          else if key = ''Enter'' \<or> key = '' '' then selectDate P f S
          else if key = ''Escape'' then S\<lparr>isOpen := False\<rparr>
          else S)"

text \<open>The Today button; \<open>now\<close> is the value of \<^verbatim>\<open>new Date()\<close> at the click.\<close>

definition clickToday :: "dateInput \<Rightarrow> date \<Rightarrow> dateInput_state \<Rightarrow> dateInput_state" where
  "clickToday P now S =
     (let today = startOfDay now
      in selectDate P today
           (S\<lparr>viewDate := new_Date (getFullYear today) (getMonth today) 1,
              focusedDay := Some today\<rparr>))"

text \<open>
  A day cell is a button of the open calendar for a date of the month matrix; its
  \<^verbatim>\<open>disabled\<close> attribute is \<^verbatim>\<open>isDisabled(day) || disabled\<close>, and its click handler is
  \<^verbatim>\<open>selectDate(day)\<close>.
\<close>

definition weeks :: "dateInput \<Rightarrow> dateInput_state \<Rightarrow> date list list" where
  "weeks P S = getMonthMatrix (viewDate S) (firstDayOfWeek P)"

definition clickDay :: "dateInput \<Rightarrow> date \<Rightarrow> dateInput_state \<Rightarrow> dateInput_state" where
  "clickDay P day S =
     (if isOpen S \<and> day \<in> set (concat (weeks P S)) \<and> \<not> (isDisabled P day \<or> di_disabled P)
      then selectDate P day S else S)"

text \<open>The Clear button is rendered when a value is set and the input is not disabled.\<close>

definition clickClear :: "dateInput \<Rightarrow> dateInput_state \<Rightarrow> dateInput_state" where
  "clickClear P S = (if di_value P \<noteq> None \<and> \<not> di_disabled P then clearDate P S else S)"

text \<open>
  The events of the component: the effect that keeps \<^verbatim>\<open>viewDate\<close> within \<^verbatim>\<open>min\<close> and
  \<^verbatim>\<open>max\<close> (it runs after mount and when either prop changes), opening and closing the
  calendar, the mouse entering a day cell, a click on a day cell, a key pressed on the
  grid, the Today and Clear buttons, and the two month buttons of the header.
\<close>

datatype di_event =
  ViewEffect | Open | Close | HoverDay date | ClickDay date | GridKey string
  | ClickToday date | ClickClear | PrevMonth | NextMonth

fun dispatch :: "dateInput \<Rightarrow> di_event \<Rightarrow> dateInput_state \<Rightarrow> dateInput_state" where
  "dispatch P ViewEffect S = S\<lparr>viewDate := clamp_date (viewDate S) (di_min P) (di_max P)\<rparr>"
| "dispatch P Open S = open_calendar P S"
| "dispatch P Close S = S\<lparr>isOpen := False\<rparr>"
| "dispatch P (HoverDay day) S =
     (if isOpen S \<and> day \<in> set (concat (weeks P S)) then S\<lparr>focusedDay := Some day\<rparr> else S)"
| "dispatch P (ClickDay day) S = clickDay P day S"
| "dispatch P (GridKey key) S = (if isOpen S then handleGridKeyDown P key S else S)"
| "dispatch P (ClickToday now) S = (if isOpen S then clickToday P now S else S)"
| "dispatch P ClickClear S = clickClear P S"
| "dispatch P PrevMonth S = (if isOpen S then S\<lparr>viewDate := addMonths (viewDate S) (- 1)\<rparr> else S)"
| "dispatch P NextMonth S = (if isOpen S then S\<lparr>viewDate := addMonths (viewDate S) 1\<rparr> else S)"

text \<open>The state after mount: \<^verbatim>\<open>viewDate\<close> is the start of the value's day, or of today.\<close>

definition di_mount :: "dateInput \<Rightarrow> date \<Rightarrow> dateInput_state" where
  "di_mount P now =
     \<lparr>isOpen = False,
      viewDate = startOfDay (case di_value P of Some v \<Rightarrow> v | None \<Rightarrow> now),
      focusedDay = (case di_value P of Some v \<Rightarrow> Some (startOfDay v) | None \<Rightarrow> None),
      di_calls = []\<rparr>"

text \<open>
  A date whose year the \<^verbatim>\<open>Date\<close> constructor takes as it is (not from 0 to 99); the day
  an event asks to select; and the states in which the focused day and the view date are
  at the start of a day.
\<close>

definition plain_year :: "date \<Rightarrow> bool" where
  "plain_year t = (getFullYear t < 0 \<or> 99 < getFullYear t)"

fun selected_day :: "dateInput_state \<Rightarrow> di_event \<Rightarrow> date option" where
  "selected_day S (ClickDay day) = Some day"
| "selected_day S (GridKey key) =
     (if key = ''Enter'' \<or> key = '' '' then focusedDay S else None)"
| "selected_day S (ClickToday now) = Some (startOfDay now)"
| "selected_day S _ = None"

definition at_start_of_day :: "dateInput_state \<Rightarrow> bool" where
  "at_start_of_day S =
     (TimeWithinDay (viewDate S) = 0 \<and>
      (case focusedDay S of None \<Rightarrow> True | Some f \<Rightarrow> TimeWithinDay f = 0))"

text \<open>The new \<^verbatim>\<open>onChange\<close> arguments an event adds to the log.\<close>

definition new_calls :: "dateInput \<Rightarrow> di_event \<Rightarrow> dateInput_state \<Rightarrow> date option list" where
  "new_calls P ev S = drop (length (di_calls S)) (di_calls (dispatch P ev S))"

text \<open>
  A value passed to \<^verbatim>\<open>onChange\<close> is in order when it is \<^verbatim>\<open>null\<close>, or the start of a day that
  is not before the start of \<^verbatim>\<open>min\<close>'s day, not after the start of \<^verbatim>\<open>max\<close>'s day and not
  disabled by \<^verbatim>\<open>disabledDates\<close>. The start of the day of \<open>m\<close> is \<open>MakeDate (Day m) 0\<close>.
\<close>

definition acceptable :: "dateInput \<Rightarrow> date option \<Rightarrow> bool" where
  "acceptable P c =
     (case c of
        None \<Rightarrow> True
      | Some e \<Rightarrow>
          TimeWithinDay e = 0 \<and>
          (case di_min P of None \<Rightarrow> True | Some m \<Rightarrow> \<not> e < MakeDate (Day m) 0) \<and>
          (case di_max P of None \<Rightarrow> True | Some m \<Rightarrow> \<not> e > MakeDate (Day m) 0) \<and>
          (case disabledDates P of None \<Rightarrow> True | Some f \<Rightarrow> \<not> f e))"


section \<open>Locale tags and the formatters of DateInput\<close>

text \<open>
  \<^verbatim>\<open>new Intl.DateTimeFormat(locale, options)\<close> begins by canonicalising the locale list, which
  throws a \<^verbatim>\<open>RangeError\<close> when the locale is not a structurally valid language tag
  (ECMA-402, IsStructurallyValidLanguageTag). The tag is put in lower case and split at
  \<^verbatim>\<open>-\<close>; it has to follow the grammar of Unicode locale identifiers without its backward
  compatibility forms:

    \<^item> a language of 2, 3 or 5 to 8 letters, then an optional script of 4 letters, an
      optional region of 2 letters or 3 digits, and variants (5 to 8 letters or digits, or
      a digit and 3 letters or digits), no variant twice;

    \<^item> then extensions, each opened by a subtag of one letter or digit, none twice:
      \<^verbatim>\<open>u\<close> takes attributes (3 to 8 characters) and keywords (a key of a letter or digit
      followed by a letter, then types of 3 to 8 characters), at least one subtag;
      \<^verbatim>\<open>t\<close> takes a language identifier (no variant twice) followed by fields, or fields
      alone, a field being a key of a letter and a digit followed by at least one value of
      3 to 8 characters; every other letter or digit but \<^verbatim>\<open>x\<close> takes at least one subtag of
      2 to 8 characters;

    \<^item> then, as the last part, an optional private use part: \<^verbatim>\<open>x\<close> followed by at least one
      subtag of 1 to 8 characters.

  A well-formed tag that names no supported locale is no error: the default locale is
  used.
\<close>

fun split_dash :: "string \<Rightarrow> string list" where
  "split_dash [] = [[]]"
| "split_dash (c # cs) =
     (if c = CHR ''-'' then [] # split_dash cs
      else (case split_dash cs of [] \<Rightarrow> [[c]] | w # ws \<Rightarrow> (c # w) # ws))"

definition is_alpha :: "char \<Rightarrow> bool" where
  "is_alpha c =
     (let n = (of_char c :: nat) in (65 \<le> n \<and> n \<le> 90) \<or> (97 \<le> n \<and> n \<le> 122))"

definition is_digit :: "char \<Rightarrow> bool" where
  "is_digit c = (let n = (of_char c :: nat) in 48 \<le> n \<and> n \<le> 57)"

definition is_alnum :: "char \<Rightarrow> bool" where
  "is_alnum c = (is_alpha c \<or> is_digit c)"

definition lower :: "char \<Rightarrow> char" where
  "lower c =
     (let n = (of_char c :: nat) in if 65 \<le> n \<and> n \<le> 90 then char_of (n + 32) else c)"

definition alnum_between :: "nat \<Rightarrow> nat \<Rightarrow> string \<Rightarrow> bool" where
  "alnum_between lo hi w = (list_all is_alnum w \<and> lo \<le> length w \<and> length w \<le> hi)"

definition is_language :: "string \<Rightarrow> bool" where
  "is_language w =
     (list_all is_alpha w \<and> (length w = 2 \<or> length w = 3 \<or> (5 \<le> length w \<and> length w \<le> 8)))"

definition is_script :: "string \<Rightarrow> bool" where
  "is_script w = (list_all is_alpha w \<and> length w = 4)"

definition is_region :: "string \<Rightarrow> bool" where
  "is_region w =
     ((list_all is_alpha w \<and> length w = 2) \<or> (list_all is_digit w \<and> length w = 3))"

definition is_variant :: "string \<Rightarrow> bool" where
  "is_variant w =
     (list_all is_alnum w \<and>
      ((5 \<le> length w \<and> length w \<le> 8) \<or> (length w = 4 \<and> is_digit (hd w))))"

definition is_singleton :: "string \<Rightarrow> bool" where
  "is_singleton w = (length w = 1 \<and> list_all is_alnum w)"

text \<open>The key of a keyword of the \<^verbatim>\<open>u\<close> extension, and the key of a field of the \<^verbatim>\<open>t\<close> extension.\<close>

definition is_key :: "string \<Rightarrow> bool" where
  "is_key w = (case w of [a, b] \<Rightarrow> is_alnum a \<and> is_alpha b | _ \<Rightarrow> False)"

definition is_tkey :: "string \<Rightarrow> bool" where
  "is_tkey w = (case w of [a, b] \<Rightarrow> is_alpha a \<and> is_digit b | _ \<Rightarrow> False)"

text \<open>What follows the language subtag of a language identifier: the variants, and the rest.\<close>

definition strip_opt :: "(string \<Rightarrow> bool) \<Rightarrow> string list \<Rightarrow> string list" where
  "strip_opt ok ws = (case ws of [] \<Rightarrow> [] | w # r \<Rightarrow> if ok w then r else ws)"

definition after_language :: "string list \<Rightarrow> string list \<times> string list" where
  "after_language ws =
     (let r = strip_opt is_region (strip_opt is_script ws)
      in (takeWhile is_variant r, dropWhile is_variant r))"

text \<open>The fields of a \<^verbatim>\<open>t\<close> extension; \<open>filled\<close> says that the current field has a value.\<close>

fun tfields_ok :: "bool \<Rightarrow> string list \<Rightarrow> bool" where
  "tfields_ok filled [] = filled"
| "tfields_ok filled (w # ws) =
     (if is_tkey w then filled \<and> tfields_ok False ws
      else alnum_between 3 8 w \<and> tfields_ok True ws)"

definition t_ok :: "string list \<Rightarrow> bool" where
  "t_ok body =
     (case body of
        [] \<Rightarrow> False
      | w # r \<Rightarrow>
          if is_language w
          then (case after_language r of
                  (vs, fs) \<Rightarrow>
                    distinct vs \<and> (fs = [] \<or> (is_tkey (hd fs) \<and> tfields_ok True fs)))
          else is_tkey w \<and> tfields_ok True body)"

definition u_ok :: "string list \<Rightarrow> bool" where
  "u_ok body = (body \<noteq> [] \<and> list_all (\<lambda>w. is_key w \<or> alnum_between 3 8 w) body)"

definition other_ok :: "string list \<Rightarrow> bool" where
  "other_ok body = (body \<noteq> [] \<and> list_all (alnum_between 2 8) body)"

text \<open>
  The extensions: \<open>kind\<close> is the singleton that opened the current extension (empty before
  the first), \<open>body\<close> its subtags so far, in reverse.
\<close>

definition extension_ok :: "string \<Rightarrow> string list \<Rightarrow> bool" where
  "extension_ok kind body =
     (if kind = [] then body = []
      else if kind = ''u'' then u_ok body
      else if kind = ''t'' then t_ok body
      else other_ok body)"

fun extensions_ok :: "string \<Rightarrow> string list \<Rightarrow> string list \<Rightarrow> bool" where
  "extensions_ok kind body [] = extension_ok kind (rev body)"
| "extensions_ok kind body (w # ws) =
     (if is_singleton w then
        extension_ok kind (rev body) \<and>
        (if w = ''x'' then ws \<noteq> [] \<and> list_all (alnum_between 1 8) ws
         else extensions_ok w [] ws)
      else kind \<noteq> [] \<and> extensions_ok kind (w # body) ws)"

definition singletons :: "string list \<Rightarrow> string list" where
  "singletons ws = filter is_singleton (takeWhile (\<lambda>w. w \<noteq> ''x'') ws)"

definition IsStructurallyValidLanguageTag :: "string \<Rightarrow> bool" where
  "IsStructurallyValidLanguageTag tag =
     (case map (map lower) (split_dash tag) of
        [] \<Rightarrow> False
      | l # r \<Rightarrow>
          is_language l \<and>
          (case after_language r of
             (vs, ext) \<Rightarrow>
               distinct vs \<and> extensions_ok [] [] ext \<and> distinct (singletons ext)))"

text \<open>
  \<^verbatim>\<open>CanonicalizeLocaleList(locale)\<close> for a locale given as one string: a \<^verbatim>\<open>RangeError\<close> or the
  list of that one locale, of which only the acceptance is kept here.
\<close>

definition CanonicalizeLocaleList :: "string \<Rightarrow> error + unit" where
  "CanonicalizeLocaleList tag =
     (if IsStructurallyValidLanguageTag tag then Inr () else Inl RangeError)"

text \<open>
  The first statement of DateInput's render that can throw is
  \<^verbatim>\<open>const fmt = new Intl.DateTimeFormat(locale, displayFormat)\<close>, and the first step of the
  constructor is the canonicalisation of \<^verbatim>\<open>locale\<close>: this is what \<open>DateInput_fmt\<close> stands
  for. A result \<open>Inr ()\<close> says that the locale was accepted, not that the render returns:
  the steps that follow (the options of \<^verbatim>\<open>displayFormat\<close>, \<^verbatim>\<open>fmt.format(value)\<close> on an invalid
  \<^verbatim>\<open>Date\<close>, \<^verbatim>\<open>toISOString\<close> on the cells of the grid) are not part of it.
\<close>

definition DateInput_fmt :: "dateInput \<Rightarrow> error + unit" where
  "DateInput_fmt P = CanonicalizeLocaleList (locale_prop P)"

section \<open>Examples\<close>

text \<open>
  A DateInput whose value is 15 January of the year 100, with a latest selectable day of
  1 January 1500, weeks starting on Monday and the component's default locale; the same
  with the underscore form of the locale name; and the state of the first after mount,
  the view-date effect and the opening of the calendar.
\<close>

definition dateInput_example :: dateInput where
  "dateInput_example =
     \<lparr>di_value = Some (new_Date 100 0 15), di_has_onChange = True, di_min = None,
      di_max = Some (new_Date 1500 0 1), di_disabled = False, disabledDates = None,
      firstDayOfWeek = 1, locale_prop = ''es-MX''\<rparr>"


definition dateInput_opened :: dateInput_state where
  "dateInput_opened =
     dispatch dateInput_example Open
       (dispatch dateInput_example ViewEffect (di_mount dateInput_example 0))"

text \<open>A disabled Pagination over 20 rows in pages of 10, handed the page number 5.\<close>

definition pagination_example :: pagination where
  "pagination_example =
     \<lparr>page = Fin 5, pageSize = Fin 10, total = Fin 20, siblingCount = Fin 1,
      boundaryCount = Fin 1, pg_disabled = True\<rparr>"

text \<open>
  An uncontrolled Counter from 0 to 10 in steps of 1 with an \<^verbatim>\<open>onChange\<close> prop, mounted
  with \<^verbatim>\<open>defaultValue = 15\<close>.
\<close>

definition counter_example :: counter where
  "counter_example = mkCounter None (Fin 15) True (Fin 0) (Fin 10) (Fin 1) False"

text \<open>A ProgressBar at 29 on the scale from 0 to 200.\<close>

definition progressBar_example :: progressBar where
  "progressBar_example =
     \<lparr>pb_value = Fin 29, pb_min = Fin 0, pb_max = Fin 200, indeterminate = False\<rparr>"

section \<open>Properties of the rounding to doubles\<close>

lemma powi_less_iff: "(2::real) powi a < 2 powi b \<longleftrightarrow> a < b"
proof
  assume l: "(2::real) powi a < 2 powi b"
  show "a < b"
  proof (rule ccontr)
    assume "\<not> a < b"
    then have "b \<le> a" by simp
    then have "(2::real) powi b \<le> 2 powi a" by (intro power_int_increasing) simp_all
    with l show False by simp
  qed
next
  assume "a < b"
  then show "(2::real) powi a < 2 powi b" by (intro power_int_strict_increasing) simp_all
qed

lemma powi_le_iff: "(2::real) powi a \<le> 2 powi b \<longleftrightarrow> a \<le> b"
  using powi_less_iff [of b a] by (simp add: not_less [symmetric])

lemma powi_neg: "(2::real) powi (- k) = 1 / 2 powi k"
  by (rule power_int_minus_divide)

lemma powi_pos: "0 < (2::real) powi k"
  by simp

lemma powi_shift53: "(2::real) powi (e + 1) = 2 ^ 53 * 2 powi (e - 52)"
proof -
  have "(2::real) powi (e + 1) = 2 powi (53 + (e - 52))"
    by (rule arg_cong [where f = "\<lambda>k. 2 powi k"]) simp
  also have "\<dots> = 2 powi 53 * 2 powi (e - 52)" by (rule power_int_add) simp
  finally show ?thesis by simp
qed

lemma powi_shift52: "(2::real) powi e = 2 ^ 52 * 2 powi (e - 52)"
proof -
  have "(2::real) powi e = 2 powi (52 + (e - 52))"
    by (rule arg_cong [where f = "\<lambda>k. 2 powi k"]) simp
  also have "\<dots> = 2 powi 52 * 2 powi (e - 52)" by (rule power_int_add) simp
  finally show ?thesis by simp
qed

lemma exponent_bounds:
  assumes "x \<noteq> 0"
  shows "2 powi exponent x \<le> \<bar>x\<bar> \<and> \<bar>x\<bar> < 2 powi (exponent x + 1)"
proof (cases "1 \<le> \<bar>x\<bar>")
  case True
  let ?n = "\<lfloor>\<bar>x\<bar>\<rfloor>"
  have n: "0 < ?n" using True by simp
  have b: "2 ^ nat (bitlen ?n - 1) \<le> ?n" "?n < 2 ^ nat (bitlen ?n)"
    using bitlen_bounds [OF n] by simp_all
  have k: "1 \<le> bitlen ?n" using n by (simp add: bitlen_alt_def)
  have e: "exponent x = bitlen ?n - 1" using True by (simp add: exponent_def)
  have "(2::real) powi (bitlen ?n - 1) = 2 ^ nat (bitlen ?n - 1)"
    using k by (simp add: power_int_nonneg_exp)
  also have "\<dots> = of_int (2 ^ nat (bitlen ?n - 1))" by simp
  also have "\<dots> \<le> of_int ?n" using b(1) by (simp only: of_int_le_iff)
  also have "\<dots> \<le> \<bar>x\<bar>" by simp
  finally have lo: "2 powi exponent x \<le> \<bar>x\<bar>" using e by simp
  have "?n + 1 \<le> 2 ^ nat (bitlen ?n)" using b(2) by simp
  then have "real_of_int (?n + 1) \<le> of_int (2 ^ nat (bitlen ?n))"
    by (simp only: of_int_le_iff)
  then have "real_of_int ?n + 1 \<le> 2 ^ nat (bitlen ?n)" by simp
  moreover have "\<bar>x\<bar> < real_of_int ?n + 1" by linarith
  ultimately have "\<bar>x\<bar> < 2 ^ nat (bitlen ?n)" by linarith
  moreover have "(2::real) powi (bitlen ?n - 1 + 1) = 2 ^ nat (bitlen ?n)"
    using k by (simp add: power_int_nonneg_exp)
  ultimately have "\<bar>x\<bar> < 2 powi (exponent x + 1)" using e by simp
  with lo show ?thesis by simp
next
  case False
  then have small: "\<bar>x\<bar> < 1" and pos: "0 < \<bar>x\<bar>" using assms by simp_all
  let ?r = "1 / \<bar>x\<bar>"
  let ?n = "\<lceil>?r\<rceil> - 1"
  have r1: "1 < ?r" using small pos by simp
  then have "1 < \<lceil>?r\<rceil>" by (simp add: less_ceiling_iff)
  then have n: "0 < ?n" by simp
  have b: "2 ^ nat (bitlen ?n - 1) \<le> ?n" "?n < 2 ^ nat (bitlen ?n)"
    using bitlen_bounds [OF n] by simp_all
  have k: "1 \<le> bitlen ?n" using n by (simp add: bitlen_alt_def)
  have e: "exponent x = - bitlen ?n" using False by (simp add: exponent_def)
  have "?n + 1 \<le> 2 ^ nat (bitlen ?n)" using b(2) by simp
  then have "real_of_int (?n + 1) \<le> of_int (2 ^ nat (bitlen ?n))"
    by (simp only: of_int_le_iff)
  then have "real_of_int ?n + 1 \<le> 2 ^ nat (bitlen ?n)" by simp
  moreover have "?r \<le> real_of_int ?n + 1" by simp
  ultimately have "?r \<le> 2 ^ nat (bitlen ?n)" by linarith
  then have "?r \<le> 2 powi bitlen ?n" using k by (simp add: power_int_nonneg_exp)
  then have "1 \<le> \<bar>x\<bar> * 2 powi bitlen ?n"
    using pos by (simp add: field_simps)
  then have "1 / 2 powi bitlen ?n \<le> \<bar>x\<bar>"
    using powi_pos [of "bitlen ?n"] by (simp add: field_simps)
  then have lo: "2 powi (- bitlen ?n) \<le> \<bar>x\<bar>"
    by (simp only: powi_neg)
  have nr: "real_of_int ?n < ?r" by linarith
  have "real_of_int (2 ^ nat (bitlen ?n - 1)) \<le> of_int ?n"
    using b(1) by (simp only: of_int_le_iff)
  then have "2 ^ nat (bitlen ?n - 1) \<le> real_of_int ?n" by simp
  with nr have "2 ^ nat (bitlen ?n - 1) < ?r" by linarith
  then have "2 powi (bitlen ?n - 1) < ?r" using k by (simp add: power_int_nonneg_exp)
  then have "\<bar>x\<bar> * 2 powi (bitlen ?n - 1) < 1"
    using pos by (simp add: field_simps)
  then have "\<bar>x\<bar> < 1 / 2 powi (bitlen ?n - 1)"
    using powi_pos [of "bitlen ?n - 1"] by (simp add: field_simps)
  then have "\<bar>x\<bar> < 2 powi (- (bitlen ?n - 1))"
    by (simp only: powi_neg)
  moreover have "exponent x + 1 = - (bitlen ?n - 1)" using e by simp
  ultimately have "\<bar>x\<bar> < 2 powi (exponent x + 1)" by (simp only:)
  with lo e show ?thesis by simp
qed

lemma exponent_unique:
  assumes "2 powi e \<le> \<bar>x\<bar>" and "\<bar>x\<bar> < 2 powi (e + 1)"
  shows "exponent x = e"
proof -
  have "0 < (2::real) powi e" by simp
  then have "0 < \<bar>x\<bar>" using assms(1) by linarith
  then have nz: "x \<noteq> 0" by simp
  note b = exponent_bounds [OF nz]
  have "(2::real) powi e < 2 powi (exponent x + 1)" using assms(1) b by linarith
  then have 1: "e < exponent x + 1" by (simp only: powi_less_iff)
  have "(2::real) powi exponent x < 2 powi (e + 1)" using assms(2) b by linarith
  then have 2: "exponent x < e + 1" by (simp only: powi_less_iff)
  from 1 2 show ?thesis by simp
qed


lemma rhe_cases: "round_half_even t = \<lfloor>t\<rfloor> \<or> round_half_even t = \<lfloor>t\<rfloor> + 1"
  by (simp add: round_half_even_def Let_def)

lemma rhe_of_int: "round_half_even (of_int n) = n"
  by (simp add: round_half_even_def)

lemma rhe_lower: "\<lfloor>t\<rfloor> \<le> round_half_even t"
  using rhe_cases [of t] by auto

lemma rhe_upper: "round_half_even t \<le> \<lfloor>t\<rfloor> + 1"
  using rhe_cases [of t] by auto

lemma rhe_mono:
  assumes "s \<le> t"
  shows "round_half_even s \<le> round_half_even t"
proof (cases "\<lfloor>s\<rfloor> = \<lfloor>t\<rfloor>")
  case True
  have "s - of_int \<lfloor>t\<rfloor> \<le> t - of_int \<lfloor>t\<rfloor>" using assms by simp
  then show ?thesis using True by (simp add: round_half_even_def Let_def)
next
  case False
  have "\<lfloor>s\<rfloor> \<le> \<lfloor>t\<rfloor>" using assms by (rule floor_mono)
  with False have "\<lfloor>s\<rfloor> + 1 \<le> \<lfloor>t\<rfloor>" by simp
  then show ?thesis using rhe_upper [of s] rhe_lower [of t] by linarith
qed

lemma rhe_minus: "round_half_even (- t) = - round_half_even t"
proof (cases "of_int \<lfloor>t\<rfloor> = t")
  case True
  then obtain n where "t = of_int n" by metis
  then show ?thesis using rhe_of_int [of n] rhe_of_int [of "- n"] by simp
next
  case False
  then have lt: "of_int \<lfloor>t\<rfloor> < t" by (metis of_int_floor_le order_le_less)
  have ub: "t < of_int \<lfloor>t\<rfloor> + 1" by linarith
  have f: "\<lfloor>- t\<rfloor> = - \<lfloor>t\<rfloor> - 1"
  proof (rule floor_unique)
    have c: "real_of_int (- \<lfloor>t\<rfloor> - 1) = - of_int \<lfloor>t\<rfloor> - 1" by simp
    show "of_int (- \<lfloor>t\<rfloor> - 1) \<le> - t" using ub unfolding c by linarith
    show "- t < of_int (- \<lfloor>t\<rfloor> - 1) + 1" using lt unfolding c by linarith
  qed
  show ?thesis
    unfolding round_half_even_def Let_def f using lt by (simp add: algebra_simps)
qed

lemma exponent_minus: "exponent (- x) = exponent x"
  by (simp add: exponent_def)

lemma quantum_minus: "quantum (- x) = quantum x"
  by (simp add: quantum_def exponent_minus)

lemma quantum_pos: "0 < quantum x"
  by (simp add: quantum_def)

lemma round_value_minus: "round_value (- x) = - round_value x"
  by (simp add: round_value_def quantum_minus rhe_minus)

lemma rhe_nonneg: "0 \<le> t \<Longrightarrow> 0 \<le> round_half_even t"
  using rhe_mono [of 0 t] rhe_of_int [of 0] by simp

lemma round_value_nonneg: "0 \<le> x \<Longrightarrow> 0 \<le> round_value x"
  using quantum_pos [of x] by (simp add: round_value_def rhe_nonneg)

lemma exponent_mono:
  assumes "0 < x" and "x \<le> y"
  shows "exponent x \<le> exponent y"
proof -
  have "x \<noteq> 0" "y \<noteq> 0" using assms by simp_all
  note bx = exponent_bounds [OF this(1)] and by' = exponent_bounds [OF this(2)]
  have "2 powi exponent x < (2::real) powi (exponent y + 1)"
    using bx by' assms by simp
  then have "exponent x < exponent y + 1" by (simp only: powi_less_iff)
  then show ?thesis by simp
qed

lemma round_value_mono_pos:
  assumes "0 < x" and "x \<le> y"
  shows "round_value x \<le> round_value y"
proof -
  let ?Ex = "max (exponent x) (- 1022)" and ?Ey = "max (exponent y) (- 1022)"
  have nz: "x \<noteq> 0" "y \<noteq> 0" using assms by simp_all
  have le: "?Ex \<le> ?Ey" using exponent_mono [OF assms] by simp
  have qx: "quantum x = 2 powi (?Ex - 52)" and qy: "quantum y = 2 powi (?Ey - 52)"
    by (simp_all add: quantum_def)
  show ?thesis
  proof (cases "?Ex = ?Ey")
    case True
    then have q: "quantum y = quantum x" using qx qy by simp
    have "x / quantum x \<le> y / quantum x"
      using assms(2) quantum_pos [of x] by (simp add: divide_right_mono)
    then have "round_half_even (x / quantum x) \<le> round_half_even (y / quantum x)"
      by (rule rhe_mono)
    then have "real_of_int (round_half_even (x / quantum x))
                 \<le> real_of_int (round_half_even (y / quantum x))" by simp
    then show ?thesis
      using quantum_pos [of x] by (simp add: round_value_def q mult_right_mono)
  next
    case False
    with le have lt: "?Ex + 1 \<le> ?Ey" by simp
    then have ey: "?Ey = exponent y" by simp
    let ?B = "(2::real) powi (?Ex + 1)"
    have xB: "x \<le> ?B"
    proof -
      have "x < 2 powi (exponent x + 1)" using exponent_bounds [OF nz(1)] assms(1) by simp
      also have "\<dots> \<le> ?B"
      proof -
        have "exponent x + 1 \<le> ?Ex + 1" by simp
        then show ?thesis by (simp only: powi_le_iff)
      qed
      finally show ?thesis by simp
    qed
    have By: "2 powi ?Ey \<le> y"
      using exponent_bounds [OF nz(2)] assms ey by simp
    have B1: "?B = 2 ^ 53 * quantum x"
      unfolding qx by (rule powi_shift53)
    have B2: "2 powi ?Ey = 2 ^ 52 * quantum y"
      unfolding qy by (rule powi_shift52)
    have "x / quantum x \<le> 2 ^ 53"
      using xB B1 quantum_pos [of x] by (simp add: field_simps)
    then have "round_half_even (x / quantum x) \<le> round_half_even (of_int (2 ^ 53))"
      by (intro rhe_mono) simp
    then have "round_half_even (x / quantum x) \<le> 2 ^ 53"
      by (simp only: rhe_of_int)
    then have "real_of_int (round_half_even (x / quantum x)) \<le> 2 ^ 53"
      by (metis of_int_le_iff of_int_numeral of_int_power)
    then have 1: "round_value x \<le> ?B"
      using quantum_pos [of x] by (simp add: round_value_def B1 mult_right_mono)
    have "2 ^ 52 \<le> y / quantum y"
      using By B2 quantum_pos [of y] by (simp add: field_simps)
    then have "round_half_even (of_int (2 ^ 52)) \<le> round_half_even (y / quantum y)"
      by (intro rhe_mono) simp
    then have "2 ^ 52 \<le> round_half_even (y / quantum y)"
      by (simp only: rhe_of_int)
    then have "2 ^ 52 \<le> real_of_int (round_half_even (y / quantum y))"
      by (metis of_int_le_iff of_int_numeral of_int_power)
    then have 2: "2 powi ?Ey \<le> round_value y"
      using quantum_pos [of y] by (simp add: round_value_def B2 mult_right_mono)
    have "?B \<le> 2 powi ?Ey" using lt by (simp only: powi_le_iff)
    with 1 2 show ?thesis by linarith
  qed
qed

lemma round_value_zero: "round_value 0 = 0"
  by (simp add: round_value_def rhe_of_int [of 0, simplified])

lemma round_value_mono:
  assumes "x \<le> y"
  shows "round_value x \<le> round_value y"
proof -
  consider "0 < x" | "x \<le> 0" "0 \<le> y" | "y < 0" by linarith
  then show ?thesis
  proof cases
    case 1
    then show ?thesis using assms by (rule round_value_mono_pos)
  next
    case 2
    have "0 \<le> round_value (- x)" using 2(1) by (intro round_value_nonneg) simp
    then have "round_value x \<le> 0" by (simp add: round_value_minus)
    moreover have "0 \<le> round_value y" using 2(2) by (rule round_value_nonneg)
    ultimately show ?thesis by simp
  next
    case 3
    have "round_value (- y) \<le> round_value (- x)"
      using 3 assms by (intro round_value_mono_pos) simp_all
    then show ?thesis by (simp add: round_value_minus)
  qed
qed

lemma round_value_double:
  assumes "is_double x"
  shows "round_value x = x" and "round_double x = Fin x"
proof -
  from assms have i: "of_int \<lfloor>x / quantum x\<rfloor> = x / quantum x"
    and b: "\<bar>x\<bar> < overflow_threshold"
    by (simp_all add: is_double_def)
  have "round_half_even (x / quantum x) = \<lfloor>x / quantum x\<rfloor>"
    using rhe_of_int [of "\<lfloor>x / quantum x\<rfloor>"] by (simp only: i)
  then have "round_value x = x / quantum x * quantum x"
    by (simp only: round_value_def i)
  then show v: "round_value x = x" using quantum_pos [of x] by simp
  have "\<not> overflow_threshold \<le> x" "\<not> x \<le> - overflow_threshold" using b by linarith+
  then show "round_double x = Fin x" by (simp add: round_double_def v)
qed


lemma round_double_cases:
  "round_double x = PosInf \<and> overflow_threshold \<le> round_value x
   \<or> round_double x = NegInf \<and> round_value x \<le> - overflow_threshold
   \<or> round_double x = Fin (round_value x) \<and> \<bar>round_value x\<bar> < overflow_threshold"
proof -
  have "0 < overflow_threshold" by (simp add: overflow_threshold_def)
  then show ?thesis unfolding round_double_def by (simp add: abs_less_iff)
qed

lemma round_double_mono:
  assumes "x \<le> y"
  shows "js_le (round_double x) (round_double y)"
proof -
  have p: "0 < overflow_threshold" by (simp add: overflow_threshold_def)
  show ?thesis
    using round_value_mono [OF assms] round_double_cases [of x] round_double_cases [of y] p
    by (elim disjE conjE) (simp_all add: js_le_def)
qed

lemma round_double_not_NaN: "\<not> isNaN (round_double x)"
  using round_double_cases [of x] by auto

lemma is_double_zero: "is_double 0"
  by (simp add: is_double_def overflow_threshold_def)

lemma is_double_of_int:
  assumes "\<bar>n\<bar> \<le> 2 ^ 53"
  shows "is_double (of_int n)"
proof (cases "n = 0")
  case True
  then show ?thesis by (simp add: is_double_zero)
next
  case False
  let ?x = "real_of_int n"
  have nz: "?x \<noteq> 0" using False by simp
  have "1 \<le> \<bar>n\<bar>" using False by simp
  then have "real_of_int 1 \<le> of_int \<bar>n\<bar>" by (simp only: of_int_le_iff)
  then have lo: "1 \<le> \<bar>?x\<bar>" by simp
  have "\<bar>?x\<bar> = of_int \<bar>n\<bar>" by simp
  also have "\<dots> \<le> of_int (2 ^ 53)" using assms by (simp only: of_int_le_iff)
  finally have hi: "\<bar>?x\<bar> \<le> 2 ^ 53" by simp
  note b = exponent_bounds [OF nz]
  have "(2::real) powi exponent ?x < 2 powi 54" using b hi by simp
  then have e54: "exponent ?x < 54" by (simp only: powi_less_iff)
  have "(2::real) powi 0 < 2 powi (exponent ?x + 1)" using b lo by simp
  then have "0 < exponent ?x + 1" by (simp only: powi_less_iff)
  then have e0: "0 \<le> exponent ?x" by simp
  have q: "quantum ?x = 2 powi (exponent ?x - 52)" using e0 by (simp add: quantum_def)
  have bound: "\<bar>?x\<bar> < overflow_threshold"
    using hi by (simp add: overflow_threshold_def)
  show ?thesis
  proof (cases "exponent ?x \<le> 52")
    case True
    then have "(2::real) powi (52 - exponent ?x) = 2 ^ nat (52 - exponent ?x)"
      by (simp add: power_int_nonneg_exp)
    moreover have "?x / quantum ?x = ?x * 2 powi (52 - exponent ?x)"
      unfolding q using powi_neg [of "exponent ?x - 52"] by simp
    ultimately have "?x / quantum ?x = of_int (n * 2 ^ nat (52 - exponent ?x))" by simp
    then have "of_int \<lfloor>?x / quantum ?x\<rfloor> = ?x / quantum ?x"
      by (simp only: floor_of_int)
    with bound show ?thesis by (simp add: is_double_def)
  next
    case False
    with e54 have e: "exponent ?x = 53" by simp
    then have "2 ^ 53 \<le> \<bar>?x\<bar>" using b by simp
    with hi have "\<bar>?x\<bar> = 2 ^ 53" by simp
    then have "?x = 2 ^ 53 \<or> ?x = - (2 ^ 53)" by (simp add: abs_if split: if_splits)
    moreover have "quantum ?x = 2" using q e by simp
    ultimately have "?x / quantum ?x = of_int (2 ^ 52) \<or> ?x / quantum ?x = of_int (- (2 ^ 52))"
      by auto
    then have "of_int \<lfloor>?x / quantum ?x\<rfloor> = ?x / quantum ?x"
      by (metis floor_of_int)
    with bound show ?thesis by (simp add: is_double_def)
  qed
qed

lemma round_value_eval:
  assumes "2 powi e \<le> \<bar>x\<bar>" and "\<bar>x\<bar> < 2 powi (e + 1)" and "- 1022 \<le> e"
  shows "round_value x = of_int (round_half_even (x / 2 powi (e - 52))) * 2 powi (e - 52)"
proof -
  have "exponent x = e" using assms(1,2) by (rule exponent_unique)
  then have "quantum x = 2 powi (e - 52)" using assms(3) by (simp add: quantum_def)
  then show ?thesis by (simp add: round_value_def)
qed


lemma is_double_numeral: "numeral k \<le> (2::int) ^ 53 \<Longrightarrow> is_double (numeral k)"
  using is_double_of_int [of "numeral k"] by simp

lemma is_double_one: "is_double 1"
  using is_double_of_int [of 1] by simp

lemma round_double_zero: "round_double 0 = Fin 0"
  using round_value_double [OF is_double_zero] by simp

section \<open>Properties of the arithmetic and the comparisons\<close>

lemma js_add_exact: "is_double (x + y) \<Longrightarrow> js_add (Fin x) (Fin y) = Fin (x + y)"
  by (simp add: js_add_def signed_zero_def round_value_double)

lemma js_sub_exact: "is_double (x - y) \<Longrightarrow> js_sub (Fin x) (Fin y) = Fin (x - y)"
  by (cases "y = 0") (simp_all add: js_sub_def js_add_def signed_zero_def round_value_double)

lemma js_le_refl: "\<not> isNaN a \<Longrightarrow> js_le a a"
  by (simp add: js_le_def)

lemma js_le_trans: "js_le a b \<Longrightarrow> js_le b c \<Longrightarrow> js_le a c"
  by (auto simp: js_le_def)

lemma js_le_not_NaN: "js_le a b \<Longrightarrow> \<not> isNaN a \<and> \<not> isNaN b"
  by (simp add: js_le_def)

lemma js_le_NegInf: "js_le NegInf r = (\<not> isNaN r)"
  by (cases r) (simp_all add: js_le_def)

lemma js_le_PosInf: "js_le r PosInf = (\<not> isNaN r)"
  by (cases r) (simp_all add: js_le_def)

lemma isNaN_signed_zero: "isNaN (signed_zero z r) = isNaN r"
  by (simp add: signed_zero_def)

lemma js_le_signed_zero:
  "js_le a (signed_zero z r) = js_le a r" "js_le (signed_zero z r) a = js_le r a"
  by (simp_all add: js_le_def signed_zero_def)

lemma js_le_val:
  "isFinite a \<Longrightarrow> js_le (Fin (val a)) b = js_le a b"
  "isFinite a \<Longrightarrow> js_le b (Fin (val a)) = js_le b a"
  by (cases a; simp add: js_le_def)+

lemma round_double_val:
  assumes "is_number a" and "isFinite a"
  shows "round_double (val a) = Fin (val a)"
proof (cases a)
  case (Fin x)
  then show ?thesis using assms(1) by (simp add: is_number_def round_value_double)
next
  case NegZero
  then show ?thesis by (simp add: round_double_zero)
qed (use assms(2) in simp_all)

lemma Math_min_le: "\<not> isNaN a \<Longrightarrow> \<not> isNaN b \<Longrightarrow> js_le (Math_min a b) a \<and> js_le (Math_min a b) b"
  by (auto simp: Math_min_def js_le_def js_lt_def)

lemma Math_min_ge: "js_le c a \<Longrightarrow> js_le c b \<Longrightarrow> js_le c (Math_min a b)"
  by (auto simp: Math_min_def js_le_def js_lt_def)

lemma Math_max_ge: "\<not> isNaN a \<Longrightarrow> \<not> isNaN b \<Longrightarrow> js_le a (Math_max a b) \<and> js_le b (Math_max a b)"
  by (auto simp: Math_max_def js_le_def js_lt_def)

lemma Math_max_le: "js_le a c \<Longrightarrow> js_le b c \<Longrightarrow> js_le (Math_max a b) c"
  by (auto simp: Math_max_def js_le_def js_lt_def)

lemma Math_min_NaN: "isNaN (Math_min a b) = (isNaN a \<or> isNaN b)"
  by (cases a; cases b) (simp_all add: Math_min_def)


text \<open>
  Adding a step that is not negative does not take a number below a lower bound that is
  a double, and subtracting one does not take it above an upper bound, as long as the
  number and the step are not both infinite.
\<close>

lemma js_add_lower:
  assumes m: "is_number m" and mc: "js_le m c" and s: "js_le (Fin 0) s"
    and fin: "isFinite s \<or> isFinite c"
  shows "js_le m (js_add c s)"
proof (cases "isFinite c")
  case c: True
  show ?thesis
  proof (cases "isFinite s")
    case True
    have sum: "js_add c s = signed_zero (c = NegZero \<and> s = NegZero) (round_double (val c + val s))"
      using c True by (cases c; cases s) (simp_all add: js_add_def)
    have s0: "0 \<le> val s" using s True by (cases s) (simp_all add: js_le_def)
    show ?thesis
    proof (cases "isFinite m")
      case True
      have "val m \<le> val c" using mc c True by (cases m; cases c) (simp_all add: js_le_def)
      then have "val m \<le> val c + val s" using s0 by simp
      then have "js_le (round_double (val m)) (round_double (val c + val s))"
        by (rule round_double_mono)
      then have "js_le (Fin (val m)) (round_double (val c + val s))"
        using round_double_val [OF m True] by simp
      then show ?thesis using True by (simp add: sum js_le_signed_zero js_le_val)
    next
      case False
      then have "m = NegInf" using mc c by (cases m; cases c) (simp_all add: js_le_def)
      then show ?thesis
        using round_double_not_NaN [of "val c + val s"]
        by (simp add: sum js_le_NegInf isNaN_signed_zero)
    qed
  next
    case False
    then have "s = PosInf" using s by (cases s) (simp_all add: js_le_def)
    then have "js_add c s = PosInf" using c by (cases c) (simp_all add: js_add_def)
    then show ?thesis using mc by (cases m) (simp_all add: js_le_def)
  qed
next
  case False
  then have "isFinite s" using fin by simp
  then have "js_add c s = c" using False mc by (cases c; cases s) (simp_all add: js_add_def js_le_def)
  then show ?thesis using mc by simp
qed

lemma js_sub_upper:
  assumes m: "is_number m" and cm: "js_le c m" and s: "js_le (Fin 0) s"
    and fin: "isFinite s \<or> isFinite c"
  shows "js_le (js_sub c s) m"
proof (cases "isFinite c")
  case c: True
  show ?thesis
  proof (cases "isFinite s")
    case True
    have sum: "js_sub c s =
                 signed_zero (c = NegZero \<and> js_neg s = NegZero) (round_double (val c - val s))"
      using c True by (cases c; cases s) (simp_all add: js_sub_def js_add_def)
    have s0: "0 \<le> val s" using s True by (cases s) (simp_all add: js_le_def)
    show ?thesis
    proof (cases "isFinite m")
      case True
      have "val c \<le> val m" using cm c True by (cases m; cases c) (simp_all add: js_le_def)
      then have "val c - val s \<le> val m" using s0 by simp
      then have "js_le (round_double (val c - val s)) (round_double (val m))"
        by (rule round_double_mono)
      then have "js_le (round_double (val c - val s)) (Fin (val m))"
        using round_double_val [OF m True] by simp
      then show ?thesis using True by (simp add: sum js_le_signed_zero js_le_val)
    next
      case False
      then have "m = PosInf" using cm c by (cases m; cases c) (simp_all add: js_le_def)
      then show ?thesis
        using round_double_not_NaN [of "val c - val s"]
        by (simp add: sum js_le_PosInf isNaN_signed_zero)
    qed
  next
    case False
    then have "s = PosInf" using s by (cases s) (simp_all add: js_le_def)
    then have "js_sub c s = NegInf" using c by (cases c) (simp_all add: js_sub_def js_add_def)
    then show ?thesis using cm by (cases m) (simp_all add: js_le_def)
  qed
next
  case False
  then have "isFinite s" using fin by simp
  then have "js_sub c s = c"
    using False cm by (cases c; cases s) (simp_all add: js_sub_def js_add_def js_le_def)
  then show ?thesis using cm by simp
qed

section \<open>Properties of the hook and of the Counter\<close>

lemma set_state_calls:
  "onChange_calls (set_state next h) =
     (if has_onChange h then onChange_calls h @ [next] else onChange_calls h)"
  by (simp add: set_state_def call_onChange_def)

text \<open>
  C7. With the \<^verbatim>\<open>value\<close> prop defined the hook is controlled: the current value is the
  prop, and \<^verbatim>\<open>set(next)\<close> leaves the state cell as it was while \<^verbatim>\<open>onChange\<close> (when the
  prop was given) is called with \<^verbatim>\<open>next\<close>. With the prop undefined the current value is
  the state cell, and \<^verbatim>\<open>set(next)\<close> stores \<^verbatim>\<open>next\<close> in it and calls \<^verbatim>\<open>onChange\<close> with
  \<^verbatim>\<open>next\<close>.
\<close>

theorem useControllableState_contract:
  "(value_prop h = Some v \<longrightarrow>
      isControlled h \<and> current h = v \<and>
      state (set_state next h) = state h \<and>
      current (set_state next h) = v) \<and>
   (value_prop h = None \<longrightarrow>
      \<not> isControlled h \<and> current h = state h \<and>
      state (set_state next h) = next \<and>
      current (set_state next h) = next) \<and>
   value_prop (set_state next h) = value_prop h \<and>
   (has_onChange h \<longrightarrow>
      onChange_calls (set_state next h) = onChange_calls h @ [next]) \<and>
   (\<not> has_onChange h \<longrightarrow>
      onChange_calls (set_state next h) = onChange_calls h)"
  by (cases "value_prop h")
     (simp_all add: set_state_def call_onChange_def isControlled_def current_def)

theorem useControllableState_contract_witness:
  "current (useState_init (Some (7::int)) 0 True) = 7 \<and>
   state (set_state 9 (useState_init (Some (7::int)) 0 True)) = 0 \<and>
   current (set_state 9 (useState_init (Some (7::int)) 0 True)) = 7 \<and>
   onChange_calls (set_state 9 (useState_init (Some (7::int)) 0 True)) = [9] \<and>
   current (useState_init None (3::int) True) = 3 \<and>
   state (set_state 9 (useState_init None (3::int) True)) = 9 \<and>
   current (set_state 9 (useState_init None (3::int) True)) = 9 \<and>
   onChange_calls (set_state 9 (useState_init None (3::int) True)) = [9] \<and>
   onChange_calls (set_state 9 (useState_init None (3::int) False)) = []"
  using useControllableState_contract
          [of "useState_init (Some (7::int)) 0 True" 7 9]
        useControllableState_contract
          [of "useState_init None (3::int) True" 0 9]
        useControllableState_contract
          [of "useState_init None (3::int) False" 0 9]
  by (simp add: useState_init_def)

lemma count_setCount:
  "count (setCount next c) =
     (case value_prop (hook c) of Some v \<Rightarrow> v | None \<Rightarrow> next)"
  by (simp add: count_def setCount_def set_state_def call_onChange_def
        isControlled_def current_def split: option.splits)

lemma calls_setCount:
  "onChange_calls (hook (setCount next c)) =
     (if has_onChange (hook c) then onChange_calls (hook c) @ [next]
      else onChange_calls (hook c))"
  by (simp add: setCount_def set_state_calls)

text \<open>The value a click hands to the setter, when the button is enabled.\<close>

lemma plus_value_range:
  assumes "is_number (min_prop c)" and "js_le (min_prop c) (max_prop c)"
    and "js_le (Fin 0) (step c)" and "js_le (min_prop c) (count c)"
    and "isFinite (step c) \<or> isFinite (count c)"
  shows "js_le (min_prop c) (Math_min (js_add (count c) (step c)) (max_prop c)) \<and>
         js_le (Math_min (js_add (count c) (step c)) (max_prop c)) (max_prop c)"
proof -
  have lo: "js_le (min_prop c) (js_add (count c) (step c))"
    using assms(1,4,3,5) by (rule js_add_lower)
  then have "\<not> isNaN (js_add (count c) (step c))" by (simp add: js_le_not_NaN)
  moreover have "\<not> isNaN (max_prop c)" using assms(2) by (simp add: js_le_not_NaN)
  ultimately have "js_le (Math_min (js_add (count c) (step c)) (max_prop c)) (max_prop c)"
    using Math_min_le by blast
  moreover have "js_le (min_prop c) (Math_min (js_add (count c) (step c)) (max_prop c))"
    using lo assms(2) by (rule Math_min_ge)
  ultimately show ?thesis by simp
qed

lemma minus_value_range:
  assumes "is_number (max_prop c)" and "js_le (min_prop c) (max_prop c)"
    and "js_le (Fin 0) (step c)" and "js_le (count c) (max_prop c)"
    and "isFinite (step c) \<or> isFinite (count c)"
  shows "js_le (min_prop c) (Math_max (js_sub (count c) (step c)) (min_prop c)) \<and>
         js_le (Math_max (js_sub (count c) (step c)) (min_prop c)) (max_prop c)"
proof -
  have hi: "js_le (js_sub (count c) (step c)) (max_prop c)"
    using assms(1,4,3,5) by (rule js_sub_upper)
  then have "\<not> isNaN (js_sub (count c) (step c))" by (simp add: js_le_not_NaN)
  moreover have "\<not> isNaN (min_prop c)" using assms(2) by (simp add: js_le_not_NaN)
  ultimately have "js_le (min_prop c) (Math_max (js_sub (count c) (step c)) (min_prop c))"
    using Math_max_ge by blast
  moreover have "js_le (Math_max (js_sub (count c) (step c)) (min_prop c)) (max_prop c)"
    using hi assms(2) by (rule Math_max_le)
  ultimately show ?thesis by simp
qed

lemma count_cases: "count (setCount next c) = next \<or> count (setCount next c) = count c"
proof -
  have "count (setCount next c) = (case value_prop (hook c) of Some v \<Rightarrow> v | None \<Rightarrow> next)"
    by (rule count_setCount)
  moreover have "count c = (case value_prop (hook c) of Some v \<Rightarrow> v | None \<Rightarrow> state (hook c))"
    by (simp add: count_def current_def split: option.splits)
  ultimately show ?thesis by (cases "value_prop (hook c)") simp_all
qed

lemma new_calls_setCount:
  "drop (length (onChange_calls (hook c))) (onChange_calls (hook (setCount next c))) =
     (if has_onChange (hook c) then [next] else [])"
  by (simp add: calls_setCount)

text \<open>
  C1, as stated, fails for a current value above \<^verbatim>\<open>max\<close>: the plus button is disabled
  whenever \<^verbatim>\<open>count >= max\<close>, so its click runs no handler. A Counter from 0 to 10 in
  steps of 1 that is mounted with the value 15 keeps 15 and calls no \<^verbatim>\<open>onChange\<close>, where
  the claim has the click set the value to \<^verbatim>\<open>Math.min(15 + 1, 10) = 10\<close>.
\<close>

theorem Counter_plus_above_max:
  "js_le (min_prop counter_example) (max_prop counter_example) \<and>
   js_le (Fin 0) (step counter_example) \<and>
   count counter_example = Fin 15 \<and>
   Math_min (js_add (count counter_example) (step counter_example)) (max_prop counter_example)
     = Fin 10 \<and>
   plus_disabled counter_example \<and>
   clickPlus counter_example = counter_example \<and>
   count (clickPlus counter_example) = Fin 15 \<and>
   onChange_calls (hook (clickPlus counter_example)) = []"
  by (simp add: counter_example_def mkCounter_def useState_init_def count_def current_def
        clickPlus_def plus_disabled_def js_le_def js_lt_def Math_min_def js_add_exact
        is_double_numeral)

text \<open>
  C1, amended. A click on an enabled plus button (the Counter is not disabled and
  \<^verbatim>\<open>count >= max\<close> is false) hands \<^verbatim>\<open>Math.min(count + step, max)\<close> to the setter, and a
  click on an enabled minus button (\<^verbatim>\<open>count <= min\<close> is false) hands it
  \<^verbatim>\<open>Math.max(count - step, min)\<close>: an uncontrolled Counter shows that value next and
  \<^verbatim>\<open>onChange\<close> receives it. A click on a disabled button changes nothing and calls
  nothing; this is so at \<^verbatim>\<open>count >= max\<close> for plus, at \<^verbatim>\<open>count <= min\<close> for minus, and
  for both when the Counter is disabled. With \<^verbatim>\<open>min <= max\<close>, \<^verbatim>\<open>step >= 0\<close>, and the
  count and the step not both infinite: from a count within \<^verbatim>\<open>[min, max]\<close> the count after
  either click, and every value passed to \<^verbatim>\<open>onChange\<close>, lie within \<^verbatim>\<open>[min, max]\<close>.
\<close>

theorem Counter_click:
  "(\<not> plus_disabled c \<longrightarrow>
      hook (clickPlus c)
        = set_state (Math_min (js_add (count c) (step c)) (max_prop c)) (hook c) \<and>
      (value_prop (hook c) = None \<longrightarrow>
         count (clickPlus c) = Math_min (js_add (count c) (step c)) (max_prop c)) \<and>
      (has_onChange (hook c) \<longrightarrow>
         onChange_calls (hook (clickPlus c))
           = onChange_calls (hook c) @ [Math_min (js_add (count c) (step c)) (max_prop c)])) \<and>
   (\<not> minus_disabled c \<longrightarrow>
      hook (clickMinus c)
        = set_state (Math_max (js_sub (count c) (step c)) (min_prop c)) (hook c) \<and>
      (value_prop (hook c) = None \<longrightarrow>
         count (clickMinus c) = Math_max (js_sub (count c) (step c)) (min_prop c)) \<and>
      (has_onChange (hook c) \<longrightarrow>
         onChange_calls (hook (clickMinus c))
           = onChange_calls (hook c) @ [Math_max (js_sub (count c) (step c)) (min_prop c)])) \<and>
   plus_disabled c = (disabled c \<or> js_le (max_prop c) (count c)) \<and>
   minus_disabled c = (disabled c \<or> js_le (count c) (min_prop c)) \<and>
   (plus_disabled c \<longrightarrow> clickPlus c = c) \<and>
   (minus_disabled c \<longrightarrow> clickMinus c = c) \<and>
   (disabled c \<longrightarrow> clickPlus c = c \<and> clickMinus c = c \<and> inc c = c \<and> dec c = c) \<and>
   (is_number (min_prop c) \<and> is_number (max_prop c) \<and>
    js_le (min_prop c) (max_prop c) \<and> js_le (Fin 0) (step c) \<and>
    js_le (min_prop c) (count c) \<and> js_le (count c) (max_prop c) \<and>
    (isFinite (step c) \<or> isFinite (count c)) \<longrightarrow>
      js_le (min_prop c) (count (clickPlus c)) \<and> js_le (count (clickPlus c)) (max_prop c) \<and>
      js_le (min_prop c) (count (clickMinus c)) \<and> js_le (count (clickMinus c)) (max_prop c) \<and>
      (\<forall>v \<in> set (drop (length (onChange_calls (hook c)))
                    (onChange_calls (hook (clickPlus c)))).
         js_le (min_prop c) v \<and> js_le v (max_prop c)) \<and>
      (\<forall>v \<in> set (drop (length (onChange_calls (hook c)))
                    (onChange_calls (hook (clickMinus c)))).
         js_le (min_prop c) v \<and> js_le v (max_prop c)))"
proof (intro conjI impI)
  assume e: "\<not> plus_disabled c"
  then have i: "clickPlus c = setCount (Math_min (js_add (count c) (step c)) (max_prop c)) c"
    by (simp add: clickPlus_def inc_def plus_disabled_def)
  show "hook (clickPlus c)
          = set_state (Math_min (js_add (count c) (step c)) (max_prop c)) (hook c)"
    by (simp add: i setCount_def)
  show "count (clickPlus c) = Math_min (js_add (count c) (step c)) (max_prop c)"
    if "value_prop (hook c) = None"
    using that by (simp add: i count_setCount)
  show "onChange_calls (hook (clickPlus c))
          = onChange_calls (hook c) @ [Math_min (js_add (count c) (step c)) (max_prop c)]"
    if "has_onChange (hook c)"
    using that by (simp add: i calls_setCount)
next
  assume e: "\<not> minus_disabled c"
  then have d: "clickMinus c = setCount (Math_max (js_sub (count c) (step c)) (min_prop c)) c"
    by (simp add: clickMinus_def dec_def minus_disabled_def)
  show "hook (clickMinus c)
          = set_state (Math_max (js_sub (count c) (step c)) (min_prop c)) (hook c)"
    by (simp add: d setCount_def)
  show "count (clickMinus c) = Math_max (js_sub (count c) (step c)) (min_prop c)"
    if "value_prop (hook c) = None"
    using that by (simp add: d count_setCount)
  show "onChange_calls (hook (clickMinus c))
          = onChange_calls (hook c) @ [Math_max (js_sub (count c) (step c)) (min_prop c)]"
    if "has_onChange (hook c)"
    using that by (simp add: d calls_setCount)
next
  show "plus_disabled c = (disabled c \<or> js_le (max_prop c) (count c))"
    by (simp add: plus_disabled_def)
  show "minus_disabled c = (disabled c \<or> js_le (count c) (min_prop c))"
    by (simp add: minus_disabled_def)
  show "clickPlus c = c" if "plus_disabled c"
    using that by (simp add: clickPlus_def)
  show "clickMinus c = c" if "minus_disabled c"
    using that by (simp add: clickMinus_def)
next
  assume d: "disabled c"
  show "clickPlus c = c" "clickMinus c = c" "inc c = c" "dec c = c"
    using d by (simp_all add: clickPlus_def clickMinus_def plus_disabled_def minus_disabled_def
                  inc_def dec_def)
next
  assume h: "is_number (min_prop c) \<and> is_number (max_prop c) \<and>
    js_le (min_prop c) (max_prop c) \<and> js_le (Fin 0) (step c) \<and>
    js_le (min_prop c) (count c) \<and> js_le (count c) (max_prop c) \<and>
    (isFinite (step c) \<or> isFinite (count c))"
  let ?up = "Math_min (js_add (count c) (step c)) (max_prop c)"
  let ?down = "Math_max (js_sub (count c) (step c)) (min_prop c)"
  have up: "js_le (min_prop c) ?up \<and> js_le ?up (max_prop c)"
    using h by (intro plus_value_range) simp_all
  have down: "js_le (min_prop c) ?down \<and> js_le ?down (max_prop c)"
    using h by (intro minus_value_range) simp_all
  have plus: "clickPlus c = c \<or> clickPlus c = setCount ?up c"
    by (simp add: clickPlus_def inc_def)
  have minus: "clickMinus c = c \<or> clickMinus c = setCount ?down c"
    by (simp add: clickMinus_def dec_def)
  show "js_le (min_prop c) (count (clickPlus c))" "js_le (count (clickPlus c)) (max_prop c)"
    using plus count_cases [of ?up c] up h by auto
  show "js_le (min_prop c) (count (clickMinus c))" "js_le (count (clickMinus c)) (max_prop c)"
    using minus count_cases [of ?down c] down h by auto
  show "\<forall>v \<in> set (drop (length (onChange_calls (hook c)))
                    (onChange_calls (hook (clickPlus c)))).
         js_le (min_prop c) v \<and> js_le v (max_prop c)"
    using plus new_calls_setCount [of c ?up] up by (auto split: if_splits)
  show "\<forall>v \<in> set (drop (length (onChange_calls (hook c)))
                    (onChange_calls (hook (clickMinus c)))).
         js_le (min_prop c) v \<and> js_le v (max_prop c)"
    using minus new_calls_setCount [of c ?down] down by (auto split: if_splits)
qed

theorem Counter_click_witness:
  "count (clickPlus (mkCounter None (Fin 9) True (Fin 0) (Fin 10) (Fin 3) False)) = Fin 10 \<and>
   onChange_calls (hook (clickPlus (mkCounter None (Fin 9) True (Fin 0) (Fin 10) (Fin 3) False)))
     = [Fin 10] \<and>
   js_le (Fin 0) (count (clickMinus (mkCounter None (Fin 9) True (Fin 0) (Fin 10) (Fin 3) False))) \<and>
   clickPlus (mkCounter None (Fin 10) True (Fin 0) (Fin 10) (Fin 3) False)
     = mkCounter None (Fin 10) True (Fin 0) (Fin 10) (Fin 3) False \<and>
   clickMinus (mkCounter None (Fin 9) True (Fin 0) (Fin 10) (Fin 3) True)
     = mkCounter None (Fin 9) True (Fin 0) (Fin 10) (Fin 3) True"
proof -
  let ?c = "mkCounter None (Fin 9) True (Fin 0) (Fin 10) (Fin 3) False"
  let ?d = "mkCounter None (Fin 10) True (Fin 0) (Fin 10) (Fin 3) False"
  let ?e = "mkCounter None (Fin 9) True (Fin 0) (Fin 10) (Fin 3) True"
  have props: "count ?c = Fin 9" "min_prop ?c = Fin 0" "max_prop ?c = Fin 10" "step ?c = Fin 3"
    "value_prop (hook ?c) = None" "has_onChange (hook ?c)" "onChange_calls (hook ?c) = []"
    by (simp_all add: mkCounter_def useState_init_def count_def current_def)
  have enabled: "\<not> plus_disabled ?c"
    by (simp add: plus_disabled_def props js_le_def) (simp add: mkCounter_def)
  have up: "Math_min (js_add (Fin 9) (Fin 3)) (Fin 10) = Fin 10"
    by (simp add: js_add_exact is_double_numeral Math_min_def js_lt_def)
  have range: "is_number (Fin 0)" "is_number (Fin 10)" "js_le (Fin 0) (Fin 10)"
    "js_le (Fin 0) (Fin 3)" "js_le (Fin 0) (Fin 9)" "js_le (Fin 9) (Fin 10)"
    by (simp_all add: is_number_def is_double_zero is_double_numeral js_le_def)
  have at_max: "plus_disabled ?d"
    by (simp add: plus_disabled_def mkCounter_def useState_init_def count_def current_def
          js_le_def)
  have off: "disabled ?e" by (simp add: mkCounter_def)
  have a: "count (clickPlus ?c) = Math_min (js_add (count ?c) (step ?c)) (max_prop ?c)"
    using Counter_click [of ?c] enabled props(5) by blast
  have b: "onChange_calls (hook (clickPlus ?c))
             = onChange_calls (hook ?c) @ [Math_min (js_add (count ?c) (step ?c)) (max_prop ?c)]"
    using Counter_click [of ?c] enabled props(6) by blast
  have 1: "count (clickPlus ?c) = Fin 10 \<and> onChange_calls (hook (clickPlus ?c)) = [Fin 10]"
    using a b by (simp add: props up)
  have "is_number (min_prop ?c) \<and> is_number (max_prop ?c) \<and>
        js_le (min_prop ?c) (max_prop ?c) \<and> js_le (Fin 0) (step ?c) \<and>
        js_le (min_prop ?c) (count ?c) \<and> js_le (count ?c) (max_prop ?c) \<and>
        (isFinite (step ?c) \<or> isFinite (count ?c))"
    by (simp add: props range)
  then have "js_le (min_prop ?c) (count (clickMinus ?c))"
    using Counter_click [of ?c] by blast
  then have 2: "js_le (Fin 0) (count (clickMinus ?c))"
    by (simp add: props)
  have 3: "clickPlus ?d = ?d"
    using Counter_click [of ?d] at_max by blast
  have 4: "clickMinus ?e = ?e"
    using Counter_click [of ?e] off by blast
  show ?thesis using 1 2 3 4 by simp
qed

section \<open>Properties of Breadcrumb\<close>

lemma slice_from_tail:
  assumes "0 < t" "t < int (length xs)"
  shows "slice_from xs (- t) = drop (length xs - nat t) xs"
  using assms by (simp add: slice_from_def slice_def Let_def nat_diff_distrib' max_def)

lemma slice_middle:
  assumes "0 < t" "t < int (length xs)"
  shows "slice xs 1 (int (length xs) - t) = take (length xs - nat t - 1) (drop 1 xs)"
  using assms by (simp add: slice_def Let_def min_def nat_diff_distrib')

lemma int_len_tail: "0 < t \<Longrightarrow> t < int n \<Longrightarrow> int (n - (n - nat t)) = t"
  by arith

lemma head_middle_tail:
  assumes "0 < k" "k < length xs"
  shows "[index0 xs] @ take (length xs - k - 1) (drop 1 xs) @ drop (length xs - k) xs = xs"
proof -
  obtain x ys where xs: "xs = x # ys" using assms by (cases xs) auto
  have "take (length ys - k) ys @ drop (length ys - k) ys = ys"
    by (rule append_take_drop_id)
  moreover have "length xs - k = Suc (length ys - k)"
    using assms xs by auto
  ultimately show ?thesis using xs by (simp add: index0_def)
qed

text \<open>
  C10. When \<^verbatim>\<open>Math.max(2, tailCount) < items.length\<close>, the three segments returned by
  \<^verbatim>\<open>getDisplayedItems\<close> concatenate to the original list, in order; in the collapsing
  branch (\<^verbatim>\<open>items.length > maxItems\<close>) the head is the first item alone and the tail the
  last \<^verbatim>\<open>Math.max(2, tailCount)\<close> items. When \<^verbatim>\<open>items.length <= maxItems\<close> the head is
  the whole list and the other two segments are empty.
\<close>

theorem getDisplayedItems_partition:
  "(max 2 tailCount < int (length xs) \<longrightarrow>
      head (getDisplayedItems xs maxItems tailCount)
        @ middle (getDisplayedItems xs maxItems tailCount)
        @ tail (getDisplayedItems xs maxItems tailCount) = xs \<and>
      (maxItems < int (length xs) \<longrightarrow>
         head (getDisplayedItems xs maxItems tailCount) = [hd xs] \<and>
         tail (getDisplayedItems xs maxItems tailCount) =
           drop (length xs - nat (max 2 tailCount)) xs \<and>
         int (length (tail (getDisplayedItems xs maxItems tailCount))) = max 2 tailCount)) \<and>
   (int (length xs) \<le> maxItems \<longrightarrow>
      head (getDisplayedItems xs maxItems tailCount) = xs \<and>
      middle (getDisplayedItems xs maxItems tailCount) = [] \<and>
      tail (getDisplayedItems xs maxItems tailCount) = [])"
proof -
  let ?t = "max 2 tailCount"
  let ?r = "getDisplayedItems xs maxItems tailCount"
  have whole: "head ?r = xs \<and> middle ?r = [] \<and> tail ?r = []"
    if "int (length xs) \<le> maxItems"
    using that by (simp add: getDisplayedItems_def)
  have cut:
    "head ?r @ middle ?r @ tail ?r = xs \<and> head ?r = [hd xs] \<and>
     tail ?r = drop (length xs - nat ?t) xs \<and> int (length (tail ?r)) = ?t"
    if big: "?t < int (length xs)" and more: "maxItems < int (length xs)"
  proof -
    have pos: "0 < ?t" by simp
    have t: "slice_from xs (- ?t) = drop (length xs - nat ?t) xs"
      using pos big by (rule slice_from_tail)
    have len: "int (length (drop (length xs - nat ?t) xs)) = ?t"
      using int_len_tail [OF pos big] by simp
    have m: "slice xs 1 (int (length xs) - ?t)
               = take (length xs - nat ?t - 1) (drop 1 xs)"
      using pos big by (rule slice_middle)
    have r: "?r = \<lparr>head = [index0 xs],
                   middle = take (length xs - nat ?t - 1) (drop 1 xs),
                   tail = drop (length xs - nat ?t) xs\<rparr>"
      using more by (simp add: getDisplayedItems_def Let_def t len m del: length_drop)
    have "0 < nat ?t" "nat ?t < length xs" using big pos by arith+
    from head_middle_tail [OF this]
    have cat: "[index0 xs] @ take (length xs - nat ?t - 1) (drop 1 xs)
                 @ drop (length xs - nat ?t) xs = xs" .
    have "xs \<noteq> []" using big by auto
    then have h: "index0 xs = hd xs"
      by (cases xs) (simp_all add: index0_def)
    show ?thesis using r cat len h by simp
  qed
  show ?thesis using whole cut by (cases "int (length xs) \<le> maxItems") auto
qed

theorem getDisplayedItems_partition_witness:
  "getDisplayedItems (map Some [1, 2, 3, 4, 5, 6, 7 :: int]) 5 3 =
     \<lparr>head = [Some 1], middle = [Some 2, Some 3, Some 4],
      tail = [Some 5, Some 6, Some 7]\<rparr> \<and>
   head (getDisplayedItems (map Some [1, 2, 3 :: int]) 5 2) = [Some 1, Some 2, Some 3] \<and>
   middle (getDisplayedItems (map Some [1, 2, 3 :: int]) 5 2) = [] \<and>
   tail (getDisplayedItems (map Some [1, 2, 3 :: int]) 5 2) = []"
  using getDisplayedItems_partition [of 3 "map Some [1, 2, 3, 4, 5, 6, 7 :: int]" 5]
        getDisplayedItems_partition [of 2 "map Some [1, 2, 3 :: int]" 5]
  by (simp add: getDisplayedItems_def slice_from_def slice_def index0_def Let_def)


section \<open>Properties of Pagination\<close>

lemma js_div_exact:
  "y \<noteq> 0 \<Longrightarrow> is_double (x / y) \<Longrightarrow>
     js_div (Fin x) (Fin y) = signed_zero ((x < 0) \<noteq> (y < 0)) (Fin (x / y))"
  by (simp add: js_div_def round_value_double)
















lemma pageNumbers_append: "pageNumbers (xs @ ys) = pageNumbers xs @ pageNumbers ys"
  by (induction xs rule: pageNumbers.induct) simp_all













text \<open>Evaluation of the arithmetic on small whole numbers.\<close>

lemmas js_eval =
  js_add_exact js_sub_exact js_div_exact is_double_numeral is_double_zero is_double_one
  Math_min_def Math_max_def js_lt_def js_le_def js_eq_def signed_zero_def clamp_def

lemma range_js_one: "range_js (Fin 1) (Fin 1) = Inr [Fin 1]"
  by (simp add: range_js_def array_length_def js_eval)

lemma range_js_two: "range_js (Fin 2) (Fin 2) = Inr [Fin 2]"
  by (simp add: range_js_def array_length_def js_eval)

lemma range_js_empty: "js_lt b a \<Longrightarrow> range_js a b = Inr []"
  by (simp add: range_js_def)

lemma js_add_NaN: "js_add NaN b = NaN" "js_sub NaN b = NaN"
  by (simp_all add: js_add_def js_sub_def)

lemma range_js_NaN: "range_js NaN NaN = Inr []"
  by (simp add: range_js_def array_length_def js_lt_def js_add_NaN)

lemma totalPages_example: "totalPages pagination_example = Fin 2"
  by (simp add: totalPages_def pagination_example_def js_eval)



text \<open>
  The first part of C4 fails as well when the \<^verbatim>\<open>page\<close> prop is \<^verbatim>\<open>NaN\<close>: the clamp returns
  \<^verbatim>\<open>NaN\<close>, which differs from every number under \<^verbatim>\<open>!==\<close>, and the effect calls
  \<^verbatim>\<open>onPageChange(NaN)\<close>.
\<close>

lemma Pagination_NaN_page:
  "fire (pagination_example\<lparr>page := NaN\<rparr>) RunEffect = [NaN]"
proof -
  let ?p = "pagination_example\<lparr>page := NaN\<rparr>"
  have t: "totalPages ?p = Fin 2"
    using totalPages_example by (simp add: totalPages_def)
  have "pg_items ?p = Inr [Page (Fin 1), Page (Fin 2)]"
    unfolding pg_items_def t
    by (simp add: pagination_example_def buildRange_def js_eval range_js_one range_js_two
          range_js_NaN same_value_zero_def js_add_NaN)
  moreover have "effect ?p = [NaN]"
    unfolding effect_def safePage_def t
    by (simp add: pagination_example_def js_eval)
  ultimately show ?thesis by (simp add: fire_def)
qed



section \<open>Properties of buildRange\<close>

text \<open>
  C8 fails on the code for \<^verbatim>\<open>boundaryCount = 2\<close>: on the last of four pages, with no
  siblings, the range is \<^verbatim>\<open>1 2 \<dots> 3 4\<close>, where the ellipsis stands between the
  neighbours 2 and 3 and replaces no page.
\<close>

theorem buildRange_spurious_ellipsis:
  "buildRange (Fin 4) (Fin 4) (Fin 0) (Fin 2)
     = Inr [Page (Fin 1), Page (Fin 2), Ellipsis, Page (Fin 3), Page (Fin 4)] \<and>
   \<not> ellipses_ok [Page (Fin 1), Page (Fin 2), Ellipsis, Page (Fin 3), Page (Fin 4)]"
proof -
  have s: "range_js (Fin 1) (Fin 2) = Inr [Fin 1, Fin 2]"
    by (simp add: range_js_def array_length_def js_eval upt_rec)
  have e: "range_js (Fin 3) (Fin 4) = Inr [Fin 3, Fin 4]"
    by (simp add: range_js_def array_length_def js_eval upt_rec)
  have m: "range_js (Fin 4) (Fin 2) = Inr []"
    by (rule range_js_empty) (simp add: js_lt_def)
  have "buildRange (Fin 4) (Fin 4) (Fin 0) (Fin 2)
          = Inr [Page (Fin 1), Page (Fin 2), Ellipsis, Page (Fin 3), Page (Fin 4)]"
    by (simp add: buildRange_def js_eval s e m same_value_zero_def)
  moreover have
    "\<not> ellipses_ok [Page (Fin 1), Page (Fin 2), Ellipsis, Page (Fin 3), Page (Fin 4)]"
    by (simp add: js_eval)
  ultimately show ?thesis by simp
qed

section \<open>Properties of ProgressBar\<close>

lemma round_double_eval:
  assumes lo: "2 powi e \<le> \<bar>x\<bar>" and hi: "\<bar>x\<bar> < 2 powi (e + 1)"
    and e: "- 1022 \<le> e" "e \<le> 1022"
  shows "round_double x = Fin (of_int (round_half_even (x / 2 powi (e - 52))) * 2 powi (e - 52))"
proof -
  let ?q = "(2::real) powi (e - 52)"
  have q: "0 < ?q" by simp
  have v: "round_value x = of_int (round_half_even (x / ?q)) * ?q"
    using lo hi e(1) by (rule round_value_eval)
  have B: "(2::real) powi (e + 1) = 2 ^ 53 * ?q" by (rule powi_shift53)
  have "x < 2 ^ 53 * ?q" "- (2 ^ 53 * ?q) < x" using hi B by linarith+
  then have "x / ?q \<le> 2 ^ 53" "- (2 ^ 53) \<le> x / ?q"
    using q by (simp_all add: field_simps)
  then have "round_half_even (x / ?q) \<le> round_half_even (of_int (2 ^ 53))"
    "round_half_even (of_int (- (2 ^ 53))) \<le> round_half_even (x / ?q)"
    by (intro rhe_mono, simp)+
  then have "round_half_even (x / ?q) \<le> 2 ^ 53" "- (2 ^ 53) \<le> round_half_even (x / ?q)"
    by (simp_all only: rhe_of_int)
  then have "real_of_int (round_half_even (x / ?q)) \<le> of_int (2 ^ 53)"
    "real_of_int (- (2 ^ 53)) \<le> of_int (round_half_even (x / ?q))"
    by (simp_all only: of_int_le_iff)
  then have "\<bar>real_of_int (round_half_even (x / ?q))\<bar> \<le> 2 ^ 53" by simp
  then have "\<bar>round_value x\<bar> \<le> 2 ^ 53 * ?q"
    using q by (simp add: v abs_mult mult_right_mono)
  also have "\<dots> = 2 powi (e + 1)" by (simp only: B)
  also have "\<dots> \<le> 2 powi 1023"
  proof -
    have "e + 1 \<le> 1023" using e(2) by simp
    then show ?thesis by (simp only: powi_le_iff)
  qed
  also have "\<dots> < overflow_threshold" by (simp add: overflow_threshold_def)
  finally have "\<bar>round_value x\<bar> < overflow_threshold" .
  then have "\<not> overflow_threshold \<le> round_value x" "\<not> round_value x \<le> - overflow_threshold"
    by linarith+
  then show ?thesis by (simp add: round_double_def v)
qed

lemma clamp_percent:
  "\<exists>q. ProgressBar_clamp v (Fin 0) (Fin 100) = Fin q \<and> 0 \<le> q \<and> q \<le> 100"
  by (cases v) (simp_all add: ProgressBar_clamp_def Math_min_def Math_max_def js_lt_def)

lemma clamp_not_finite: "\<not> isFinite v \<Longrightarrow> ProgressBar_clamp v lo hi = lo"
  by (simp add: ProgressBar_clamp_def)

lemma js_sub_not_finite: "\<not> isFinite v \<Longrightarrow> \<not> isFinite (js_sub v m)"
  by (cases v; cases m) (simp_all add: js_sub_def js_add_def)

lemma js_div_not_finite: "\<not> isFinite x \<Longrightarrow> \<not> isFinite (js_div x d)"
  by (cases x; cases d) (simp_all add: js_div_def)

lemma js_mul_not_finite: "\<not> isFinite y \<Longrightarrow> \<not> isFinite (js_mul y (Fin 100))"
  by (cases y) (simp_all add: js_mul_def)

lemma percent_not_finite:
  "\<not> isFinite v \<Longrightarrow> \<not> isFinite (js_mul (js_div (js_sub v m) d) (Fin 100))"
  by (intro js_mul_not_finite js_div_not_finite js_sub_not_finite)

text \<open>
  C6, as stated, fails on the code: the claim gives the percentage as
  \<^verbatim>\<open>100 * (value - min') / max(1, max' - min')\<close>, the code computes
  \<^verbatim>\<open>((value - safeMin) / span) * 100\<close>, and in double arithmetic the two differ. For the
  value 29 on the scale from 0 to 200 the code divides first, \<^verbatim>\<open>29 / 200\<close> is not a double,
  and the percentage comes out as 14.499999999999998 (\<^verbatim>\<open>8162774324609023 / 2^49\<close>), so that
  \<^verbatim>\<open>aria-valuenow\<close> is 14; the formula of the claim gives 14.5, in doubles and in exact
  arithmetic alike, which rounds to 15.
\<close>

theorem ProgressBar_rounding:
  "is_number (pb_value progressBar_example) \<and> is_number (pb_min progressBar_example) \<and>
   is_number (pb_max progressBar_example) \<and>
   pVal progressBar_example = Fin (8162774324609023 / 2 ^ 49) \<and>
   percentage_as_specified progressBar_example = Fin (29 / 2) \<and>
   exact_percentage 29 0 200 = 29 / 2 \<and>
   (8162774324609023 / 2 ^ 49 :: real) < 29 / 2 \<and>
   ariaNow progressBar_example = Some (Fin 14) \<and>
   Math_round (percentage_as_specified progressBar_example) = Fin 15"
proof -
  have n: "is_number (Fin 29)" "is_number (Fin 0)" "is_number (Fin 200)"
    by (simp_all add: is_number_def is_double_numeral is_double_zero)
  have lo: "Math_min (Fin 0) (Fin 200) = Fin 0" and hi: "Math_max (Fin 0) (Fin 200) = Fin 200"
    by (simp_all add: Math_min_def Math_max_def js_lt_def)
  have d: "js_sub (Fin 200) (Fin 0) = Fin 200" and v: "js_sub (Fin 29) (Fin 0) = Fin 29"
    by (simp_all add: js_sub_exact is_double_numeral)
  have s: "Math_max (Fin 1) (Fin 200) = Fin 200"
    by (simp add: Math_max_def js_lt_def)
  have q: "js_div (Fin 29) (Fin 200) = Fin (5224175567749775 / 36028797018963968)"
    using round_double_eval [of "- 3" "29 / 200"]
    by (simp add: js_div_def signed_zero_def round_half_even_def)
  have p: "js_mul (Fin (5224175567749775 / 36028797018963968)) (Fin 100)
             = Fin (8162774324609023 / 562949953421312)"
    using round_double_eval [of 3 "5224175567749775 / 36028797018963968 * 100"]
    by (simp add: js_mul_def signed_zero_def round_half_even_def)
  have c: "ProgressBar_clamp (Fin (8162774324609023 / 562949953421312)) (Fin 0) (Fin 100)
             = Fin (8162774324609023 / 562949953421312)"
    by (simp add: ProgressBar_clamp_def Math_min_def Math_max_def js_lt_def)
  have code: "pVal progressBar_example = Fin (8162774324609023 / 562949953421312)"
    by (simp add: pVal_def span_def safeMin_def safeMax_def progressBar_example_def
          lo hi d v s q p c)
  have "is_double 2900" by (simp add: is_double_numeral)
  then have "round_double 2900 = Fin 2900" by (rule round_value_double)
  then have m: "js_mul (Fin 100) (Fin 29) = Fin 2900"
    by (simp add: js_mul_def signed_zero_def)
  have r: "js_div (Fin 2900) (Fin 200) = Fin (29 / 2)"
    using round_double_eval [of 3 "29 / 2"]
    by (simp add: js_div_def signed_zero_def round_half_even_def)
  have c2: "ProgressBar_clamp (Fin (29 / 2)) (Fin 0) (Fin 100) = Fin (29 / 2)"
    by (simp add: ProgressBar_clamp_def Math_min_def Math_max_def js_lt_def)
  have spec: "percentage_as_specified progressBar_example = Fin (29 / 2)"
    by (simp add: percentage_as_specified_def progressBar_example_def lo hi d v s m r c2)
  have exact: "exact_percentage 29 0 200 = 29 / 2"
    by (simp add: exact_percentage_def)
  have aria: "ariaNow progressBar_example = Some (Fin 14)"
    by (simp add: ariaNow_def code signed_zero_def) (simp add: progressBar_example_def)
  have r15: "Math_round (Fin (29 / 2)) = Fin 15"
    by (simp add: signed_zero_def)
  show ?thesis
    using n code spec exact aria r15 by (simp add: progressBar_example_def)
qed

text \<open>
  C6, amended. The fill percentage is \<^verbatim>\<open>((value - min') / max(1, max' - min')) * 100\<close>
  clamped to \<^verbatim>\<open>[0, 100]\<close>, with \<^verbatim>\<open>min'\<close> the smaller and \<^verbatim>\<open>max'\<close> the larger of \<^verbatim>\<open>min\<close> and
  \<^verbatim>\<open>max\<close>, each operation in this order and rounded to a double; it is a finite number
  within \<^verbatim>\<open>[0, 100]\<close> for every input; a value that is not finite gives 0; and
  \<^verbatim>\<open>aria-valuenow\<close>, unless the bar is indeterminate, is that percentage rounded to the
  nearest integer, a tie going up.
\<close>

theorem ProgressBar_percentage:
  "pVal b =
     ProgressBar_clamp
       (js_mul
          (js_div (js_sub (pb_value b) (Math_min (pb_min b) (pb_max b)))
             (Math_max (Fin 1)
                (js_sub (Math_max (pb_min b) (pb_max b)) (Math_min (pb_min b) (pb_max b)))))
          (Fin 100))
       (Fin 0) (Fin 100) \<and>
   (\<exists>q. pVal b = Fin q \<and> 0 \<le> q \<and> q \<le> 100 \<and>
        (\<not> indeterminate b \<longrightarrow>
           ariaNow b = Some (Fin (of_int \<lfloor>q + 1 / 2\<rfloor>)) \<and>
           \<bar>of_int \<lfloor>q + 1 / 2\<rfloor> - q\<bar> \<le> 1 / 2)) \<and>
   (indeterminate b \<longrightarrow> ariaNow b = None) \<and>
   (\<not> isFinite (pb_value b) \<longrightarrow> pVal b = Fin 0)"
proof (intro conjI impI)
  show "pVal b =
     ProgressBar_clamp
       (js_mul
          (js_div (js_sub (pb_value b) (Math_min (pb_min b) (pb_max b)))
             (Math_max (Fin 1)
                (js_sub (Math_max (pb_min b) (pb_max b)) (Math_min (pb_min b) (pb_max b)))))
          (Fin 100))
       (Fin 0) (Fin 100)"
    by (simp add: pVal_def span_def safeMin_def safeMax_def)
  obtain q where q: "pVal b = Fin q" "0 \<le> q" "q \<le> 100"
    unfolding pVal_def using clamp_percent by blast
  have "ariaNow b = Some (Fin (of_int \<lfloor>q + 1 / 2\<rfloor>)) \<and> \<bar>of_int \<lfloor>q + 1 / 2\<rfloor> - q\<bar> \<le> 1 / 2"
    if "\<not> indeterminate b"
  proof -
    have "ariaNow b = Some (Fin (of_int \<lfloor>q + 1 / 2\<rfloor>))"
      using that q(1,2) by (simp add: ariaNow_def signed_zero_def)
    moreover have "\<bar>of_int \<lfloor>q + 1 / 2\<rfloor> - q\<bar> \<le> 1 / 2" by linarith
    ultimately show ?thesis by simp
  qed
  with q show "\<exists>q. pVal b = Fin q \<and> 0 \<le> q \<and> q \<le> 100 \<and>
        (\<not> indeterminate b \<longrightarrow>
           ariaNow b = Some (Fin (of_int \<lfloor>q + 1 / 2\<rfloor>)) \<and>
           \<bar>of_int \<lfloor>q + 1 / 2\<rfloor> - q\<bar> \<le> 1 / 2)"
    by blast
  show "ariaNow b = None" if "indeterminate b"
    using that by (simp add: ariaNow_def)
  show "pVal b = Fin 0" if h: "\<not> isFinite (pb_value b)"
  proof -
    have "\<not> isFinite (js_mul (js_div (js_sub (pb_value b) (safeMin b)) (span b)) (Fin 100))"
      using h by (rule percent_not_finite)
    then show ?thesis by (simp add: pVal_def clamp_not_finite)
  qed
qed

theorem ProgressBar_percentage_witness:
  "pVal \<lparr>pb_value = Fin 30, pb_min = Fin 100, pb_max = Fin 0, indeterminate = False\<rparr>
     = Fin 30 \<and>
   ariaNow \<lparr>pb_value = Fin 30, pb_min = Fin 100, pb_max = Fin 0, indeterminate = False\<rparr>
     = Some (Fin 30) \<and>
   ariaNow \<lparr>pb_value = Fin 30, pb_min = Fin 100, pb_max = Fin 0, indeterminate = True\<rparr>
     = None \<and>
   pVal \<lparr>pb_value = NaN, pb_min = Fin 100, pb_max = Fin 0, indeterminate = False\<rparr>
     = Fin 0"
proof -
  let ?b = "\<lparr>pb_value = Fin 30, pb_min = Fin 100, pb_max = Fin 0, indeterminate = False\<rparr>"
  let ?i = "\<lparr>pb_value = Fin 30, pb_min = Fin 100, pb_max = Fin 0, indeterminate = True\<rparr>"
  let ?n = "\<lparr>pb_value = NaN, pb_min = Fin 100, pb_max = Fin 0, indeterminate = False\<rparr>"
  have lo: "Math_min (Fin 100) (Fin 0) = Fin 0" and hi: "Math_max (Fin 100) (Fin 0) = Fin 100"
    by (simp_all add: Math_min_def Math_max_def js_lt_def)
  have d: "js_sub (Fin 100) (Fin 0) = Fin 100" and v: "js_sub (Fin 30) (Fin 0) = Fin 30"
    by (simp_all add: js_sub_exact is_double_numeral)
  have s: "Math_max (Fin 1) (Fin 100) = Fin 100"
    by (simp add: Math_max_def js_lt_def)
  have q: "js_div (Fin 30) (Fin 100) = Fin (5404319552844595 / 18014398509481984)"
    using round_double_eval [of "- 2" "30 / 100"]
    by (simp add: js_div_def signed_zero_def round_half_even_def)
  have p: "js_mul (Fin (5404319552844595 / 18014398509481984)) (Fin 100) = Fin 30"
    using round_double_eval [of 4 "5404319552844595 / 18014398509481984 * 100"]
    by (simp add: js_mul_def signed_zero_def round_half_even_def)
  have c: "ProgressBar_clamp (Fin 30) (Fin 0) (Fin 100) = Fin 30"
    by (simp add: ProgressBar_clamp_def Math_min_def Math_max_def js_lt_def)
  have 1: "pVal ?b = Fin 30"
    using ProgressBar_percentage [of ?b] by (simp add: lo hi d v s q p c)
  have "\<exists>q. pVal ?b = Fin q \<and> 0 \<le> q \<and> q \<le> 100 \<and>
          (\<not> indeterminate ?b \<longrightarrow>
             ariaNow ?b = Some (Fin (of_int \<lfloor>q + 1 / 2\<rfloor>)) \<and>
             \<bar>of_int \<lfloor>q + 1 / 2\<rfloor> - q\<bar> \<le> 1 / 2)"
    using ProgressBar_percentage [of ?b] by blast
  then obtain x where x: "pVal ?b = Fin x"
    "\<not> indeterminate ?b \<longrightarrow> ariaNow ?b = Some (Fin (of_int \<lfloor>x + 1 / 2\<rfloor>))"
    by blast
  have "x = 30" using x(1) 1 by simp
  then have 2: "ariaNow ?b = Some (Fin 30)" using x(2) by simp
  have "indeterminate ?i" by simp
  then have 3: "ariaNow ?i = None" using ProgressBar_percentage [of ?i] by blast
  have "\<not> isFinite (pb_value ?n)" by simp
  then have 4: "pVal ?n = Fin 0" using ProgressBar_percentage [of ?n] by blast
  show ?thesis using 1 2 3 4 by simp
qed

section \<open>Properties of the size tables\<close>

text \<open>
  C2 fails on the code for Counter: \<^verbatim>\<open>"xl"\<close> is not a key of its size table, and the
  Counter reads \<^verbatim>\<open>sizeStyles["xl"]\<close> with no test, so its size class is \<^verbatim>\<open>undefined\<close>
  and not the \<^verbatim>\<open>"md"\<close> class.
\<close>

theorem Counter_size_no_fallback:
  "''xl'' \<notin> set (map fst Counter_sizeStyles) \<and>
   Counter_safeSize ''xl'' = Undefined \<and>
   Counter_safeSize ''md'' = Str ''h-10 text-base rounded-lg''"
  by (simp add: Counter_safeSize_def get_prop_def Counter_sizeStyles_def
        Object_prototype_keys_def)

lemma safeSize_fallback:
  assumes "sz \<notin> set (map fst table)" and "sz \<notin> set Object_prototype_keys"
  shows "safeSize table sz = ''md''"
proof -
  have "map_of table sz = None"
    using assms(1) by (simp add: map_of_eq_None_iff)
  then show ?thesis using assms(2) by (simp add: safeSize_def get_prop_def)
qed

text \<open>
  In Badge, RatingStars and Avatar a size that is neither a key of the size table nor a
  name of \<^verbatim>\<open>Object.prototype\<close> is replaced by \<^verbatim>\<open>"md"\<close>, and the class of \<^verbatim>\<open>"md"\<close> is
  rendered.
\<close>

theorem size_fallback_md:
  assumes "sz \<notin> set Object_prototype_keys"
  shows "(sz \<notin> set (map fst Badge_sizes) \<longrightarrow>
            Badge_size_class sz = Str ''px-2.5 py-1 text-sm'') \<and>
         (sz \<notin> set (map fst RatingStars_sizeStyles) \<longrightarrow>
            RatingStars_starSize sz = Str ''w-5 h-5'') \<and>
         (sz \<notin> set (map fst Avatar_sizeStyles) \<longrightarrow>
            Avatar_size_class sz = Str ''w-10 h-10 text-sm'')"
proof (intro conjI impI)
  assume "sz \<notin> set (map fst Badge_sizes)"
  from safeSize_fallback [OF this assms]
  show "Badge_size_class sz = Str ''px-2.5 py-1 text-sm''"
    by (simp add: Badge_size_class_def get_prop_def Badge_sizes_def)
next
  assume "sz \<notin> set (map fst RatingStars_sizeStyles)"
  from safeSize_fallback [OF this assms]
  show "RatingStars_starSize sz = Str ''w-5 h-5''"
    by (simp add: RatingStars_starSize_def get_prop_def RatingStars_sizeStyles_def)
next
  assume "sz \<notin> set (map fst Avatar_sizeStyles)"
  from safeSize_fallback [OF this assms]
  show "Avatar_size_class sz = Str ''w-10 h-10 text-sm''"
    by (simp add: Avatar_size_class_def get_prop_def Avatar_sizeStyles_def)
qed

theorem size_fallback_md_witness:
  "Badge_size_class ''huge'' = Str ''px-2.5 py-1 text-sm'' \<and>
   RatingStars_starSize ''huge'' = Str ''w-5 h-5'' \<and>
   Avatar_size_class ''huge'' = Str ''w-10 h-10 text-sm''"
  using size_fallback_md [of "''huge''"]
  by (simp add: Object_prototype_keys_def Badge_sizes_def RatingStars_sizeStyles_def
        Avatar_sizeStyles_def)


section \<open>Properties of rendering with malformed props\<close>










text \<open>The grammar of locale tags on some tags, well-formed and not.\<close>

lemma locale_tags:
  "IsStructurallyValidLanguageTag ''es-MX'' \<and>
   IsStructurallyValidLanguageTag ''zh-Hant-TW'' \<and>
   IsStructurallyValidLanguageTag ''sl-rozaj-biske'' \<and>
   IsStructurallyValidLanguageTag ''de-DE-u-co-phonebk'' \<and>
   IsStructurallyValidLanguageTag ''en-u-attr-ca-gregory'' \<and>
   IsStructurallyValidLanguageTag ''en-t-es-Latn-h0-hybrid'' \<and>
   IsStructurallyValidLanguageTag ''en-t-h0-hybrid'' \<and>
   IsStructurallyValidLanguageTag ''en-a-bb-x-a'' \<and>
   \<not> IsStructurallyValidLanguageTag '''' \<and>
   \<not> IsStructurallyValidLanguageTag ''es_MX'' \<and>
   \<not> IsStructurallyValidLanguageTag ''root'' \<and>
   \<not> IsStructurallyValidLanguageTag ''x-private'' \<and>
   \<not> IsStructurallyValidLanguageTag ''en-'' \<and>
   \<not> IsStructurallyValidLanguageTag ''en-GB-oed'' \<and>
   \<not> IsStructurallyValidLanguageTag ''sl-rozaj-rozaj'' \<and>
   \<not> IsStructurallyValidLanguageTag ''en-u'' \<and>
   \<not> IsStructurallyValidLanguageTag ''en-u-11'' \<and>
   \<not> IsStructurallyValidLanguageTag ''en-u-a1'' \<and>
   \<not> IsStructurallyValidLanguageTag ''en-t-h0'' \<and>
   \<not> IsStructurallyValidLanguageTag ''en-t-enus'' \<and>
   \<not> IsStructurallyValidLanguageTag ''en-a-bb-a-cc'' \<and>
   \<not> IsStructurallyValidLanguageTag ''en-x''"
  by code_simp




section \<open>The month matrix and the selection of days at a two-digit year\<close>

text \<open>
  C9 fails on the code for a view date in the years 0 to 99: \<^verbatim>\<open>getMonthMatrix\<close> builds the
  first of the month with \<^verbatim>\<open>new Date(year, month, 1)\<close>, which reads the year 99 as 1999.
  For the view date 15 December 0099 (reached from the value 15 January 0100 by the
  previous-month button) the grid starts on 29 November 1999 and holds no day of the view
  month.
\<close>

theorem getMonthMatrix_two_digit_year:
  "getFullYear (MakeDate (MakeDay 99 11 15) 0) = 99 \<and>
   getMonth (MakeDate (MakeDay 99 11 15) 0) = 11 \<and>
   addMonths (new_Date 100 0 15) (- 1) = MakeDate (MakeDay 99 11 15) 0 \<and>
   MakeDate (MakeDay 99 11 15) 0 \<notin> set (concat (getMonthMatrix (MakeDate (MakeDay 99 11 15) 0) 1)) \<and>
   hd (concat (getMonthMatrix (MakeDate (MakeDay 99 11 15) 0) 1)) = new_Date 1999 10 29 \<and>
   list_all (\<lambda>c. 1999 \<le> getFullYear c)
     (concat (getMonthMatrix (MakeDate (MakeDay 99 11 15) 0) 1))"
  by code_simp

text \<open>
  C5 fails on the code for a day in the years 0 to 99: \<^verbatim>\<open>startOfDay\<close> rebuilds the day with
  \<^verbatim>\<open>new Date(year, month, date)\<close>, which reads the year 99 as 1999. With the value
  15 January 0100 and \<^verbatim>\<open>max\<close> 1 January 1500, the open calendar shows 28 December 0099 as
  an enabled cell; clicking it calls \<^verbatim>\<open>onChange\<close> with 28 December 1999, a day after
  \<^verbatim>\<open>max\<close>.
\<close>

theorem selectDate_two_digit_year:
  "di_max dateInput_example = Some (new_Date 1500 0 1) \<and>
   DateInput_fmt dateInput_example = Inr () \<and> isOpen dateInput_opened \<and>
   MakeDate (MakeDay 99 11 28) 0 = hd (concat (weeks dateInput_example dateInput_opened)) \<and>
   getFullYear (MakeDate (MakeDay 99 11 28) 0) = 99 \<and>
   \<not> isDisabled dateInput_example (MakeDate (MakeDay 99 11 28) 0) \<and>
   di_calls (dispatch dateInput_example (ClickDay (MakeDate (MakeDay 99 11 28) 0))
               dateInput_opened)
     = [Some (new_Date 1999 11 28)] \<and>
   getFullYear (new_Date 1999 11 28) = 1999 \<and>
   startOfDay (new_Date 1500 0 1) < new_Date 1999 11 28"
  by code_simp


section \<open>The calendar\<close>

lemma div_bounds: "0 < c \<Longrightarrow> c * ((a::int) div c) \<le> a \<and> a < c * (a div c) + c"
  by (metis mult_div_mod_eq pos_mod_bound pos_mod_sign add_le_cancel_left add_less_cancel_left
        add_0_right)

lemma DayFromYear_bounds_aux:
  fixes A B C y :: int
  assumes "4 * A \<le> y - 1969 \<and> y - 1969 < 4 * A + 4"
    and "100 * B \<le> y - 1901 \<and> y - 1901 < 100 * B + 100"
    and "400 * C \<le> y - 1601 \<and> y - 1601 < 400 * C + 400"
  shows "146097 * (y - 1970) - 506 \<le> 400 * (365 * (y - 1970) + A - B + C) \<and>
         400 * (365 * (y - 1970) + A - B + C) \<le> 146097 * (y - 1970) + 589"
  using assms by simp

lemma DayFromYear_bounds:
  "146097 * (y - 1970) - 506 \<le> 400 * DayFromYear y \<and>
   400 * DayFromYear y \<le> 146097 * (y - 1970) + 589"
  unfolding DayFromYear_def
  by (rule DayFromYear_bounds_aux) (rule div_bounds, simp)+

lemma DayFromYear_strict_mono:
  assumes "y < z" shows "DayFromYear y < DayFromYear z"
proof -
  have "146097 * (y - 1970) + 589 < 146097 * (z - 1970) - 506"
    using assms by simp
  then have "400 * DayFromYear y < 400 * DayFromYear z"
    using DayFromYear_bounds [of y] DayFromYear_bounds [of z] by linarith
  then show ?thesis by simp
qed

lemma year_estimate:
  fixes q d f0 f1 f2 f3 :: int
  assumes "146097 * q \<le> 400 * d \<and> 400 * d < 146097 * q + 146097"
   and "400 * fm \<le> 146097 * (q - 1) + 589"
   and "146097 * (q + 2) - 506 \<le> 400 * fp"
  shows "fm \<le> d \<and> d < fp"
  using assms by simp

lemma YearFromDay_bounds:
  "DayFromYear (YearFromDay d) \<le> d \<and> d < DayFromYear (YearFromDay d + 1)"
proof -
  let ?q = "(400 * d) div 146097"
  have q: "146097 * ?q \<le> 400 * d \<and> 400 * d < 146097 * ?q + 146097"
    by (rule div_bounds) simp
  have lo: "400 * DayFromYear (1970 + ?q - 1) \<le> 146097 * (?q - 1) + 589"
    using DayFromYear_bounds [of "1970 + ?q - 1"] by simp
  have hi: "146097 * (?q + 2) - 506 \<le> 400 * DayFromYear (1970 + ?q + 1 + 1)"
    using DayFromYear_bounds [of "1970 + ?q + 1 + 1"] by simp
  from year_estimate [OF q lo hi]
  have "DayFromYear (1970 + ?q - 1) \<le> d" "d < DayFromYear (1970 + ?q + 1 + 1)"
    by simp_all
  then show ?thesis
    by (simp add: YearFromDay_def Let_def)
qed

lemma YearFromDay_unique:
  assumes "DayFromYear y \<le> d" and "d < DayFromYear (y + 1)"
  shows "YearFromDay d = y"
proof (rule ccontr)
  assume ne: "YearFromDay d \<noteq> y"
  have b: "DayFromYear (YearFromDay d) \<le> d" "d < DayFromYear (YearFromDay d + 1)"
    using YearFromDay_bounds by simp_all
  show False
  proof (cases "YearFromDay d < y")
    case True
    then have "YearFromDay d + 1 \<le> y" by simp
    then have "DayFromYear (YearFromDay d + 1) \<le> DayFromYear y"
      using DayFromYear_strict_mono [of "YearFromDay d + 1" y] by (cases "YearFromDay d + 1 = y") auto
    with b assms show False by linarith
  next
    case False
    with ne have "y + 1 \<le> YearFromDay d" by simp
    then have "DayFromYear (y + 1) \<le> DayFromYear (YearFromDay d)"
      using DayFromYear_strict_mono [of "y + 1" "YearFromDay d"] by (cases "y + 1 = YearFromDay d") auto
    with b assms show False by linarith
  qed
qed

lemma div_step:
  fixes a c :: int
  assumes "0 < c"
  shows "(a + 1) div c = a div c + (if (a + 1) mod c = 0 then 1 else 0)"
proof -
  let ?q = "a div c" and ?r = "a mod c"
  have r: "0 \<le> ?r" "?r < c" using assms by simp_all
  have m: "c * ?q + ?r = a" by (rule mult_div_mod_eq)
  show ?thesis
  proof (cases "?r + 1 = c")
    case True
    have "c * (?q + 1) = c * ?q + c" by (simp add: algebra_simps)
    with m True have e: "a + 1 = c * (?q + 1) + 0" by linarith
    have "(a + 1) div c = ?q + 1"
      by (rule int_div_pos_eq [OF e]) (use assms in simp_all)
    moreover have "(a + 1) mod c = 0"
      by (rule int_mod_pos_eq [OF e]) (use assms in simp_all)
    ultimately show ?thesis by simp
  next
    case False
    then have lt: "?r + 1 < c" using r by simp
    have e: "a + 1 = c * ?q + (?r + 1)" using m by linarith
    have "(a + 1) div c = ?q"
      by (rule int_div_pos_eq [OF e]) (use r lt in simp_all)
    moreover have "(a + 1) mod c = ?r + 1"
      by (rule int_mod_pos_eq [OF e]) (use r lt in simp_all)
    ultimately show ?thesis using r by simp
  qed
qed

lemma mod_shift: "(c::int) dvd k \<Longrightarrow> ((a - k) mod c = 0) = (a mod c = 0)"
  by (metis dvd_eq_mod_eq_0 mod_eq_dvd_iff)

lemma year_step_arith:
  fixes y A B C a b c :: int
  shows "365 * (y + 1 - 1970) + (A + a) - (B + b) + (C + c) =
         365 * (y - 1970) + A - B + C + 365 + a - b + c"
  by simp

lemma DayFromYear_Suc: "DayFromYear (y + 1) = DayFromYear y + DaysInYear y"
proof -
  have s4: "(y + 1 - 1969) div 4 = (y - 1969) div 4 + (if y mod 4 = 0 then 1 else 0)"
    using div_step [of 4 "y - 1969"] mod_shift [of 4 1968 y] by (simp add: algebra_simps)
  have s100: "(y + 1 - 1901) div 100 = (y - 1901) div 100 + (if y mod 100 = 0 then 1 else 0)"
    using div_step [of 100 "y - 1901"] mod_shift [of 100 1900 y] by (simp add: algebra_simps)
  have s400: "(y + 1 - 1601) div 400 = (y - 1601) div 400 + (if y mod 400 = 0 then 1 else 0)"
    using div_step [of 400 "y - 1601"] mod_shift [of 400 1600 y] by (simp add: algebra_simps)
  have d1: "y mod 4 = 0" if "y mod 100 = 0"
  proof -
    have "(100::int) dvd y" using that by (simp add: dvd_eq_mod_eq_0)
    moreover have "(4::int) dvd 100" by simp
    ultimately have "(4::int) dvd y" by (rule dvd_trans [rotated])
    then show ?thesis by (simp add: dvd_eq_mod_eq_0)
  qed
  have d2: "y mod 100 = 0" if "y mod 400 = 0"
  proof -
    have "(400::int) dvd y" using that by (simp add: dvd_eq_mod_eq_0)
    moreover have "(100::int) dvd 400" by simp
    ultimately have "(100::int) dvd y" by (rule dvd_trans [rotated])
    then show ?thesis by (simp add: dvd_eq_mod_eq_0)
  qed
  have "DayFromYear (y + 1) =
          365 * (y + 1 - 1970) + (y + 1 - 1969) div 4 - (y + 1 - 1901) div 100
            + (y + 1 - 1601) div 400"
    by (simp only: DayFromYear_def)
  also have "\<dots> = DayFromYear y + 365 + (if y mod 4 = 0 then 1 else 0)
                    - (if y mod 100 = 0 then 1 else 0) + (if y mod 400 = 0 then 1 else 0)"
    unfolding s4 s100 s400 DayFromYear_def by (rule year_step_arith)
  also have "\<dots> = DayFromYear y + DaysInYear y"
    using d1 d2 by (auto simp: DaysInYear_def)
  finally show ?thesis .
qed

lemma DaysInYear_leap: "DaysInYear y = 365 + InLeapYear y"
  by (simp add: InLeapYear_def DaysInYear_def)

lemma DayWithinYear_range:
  "0 \<le> DayWithinYear d \<and> DayWithinYear d < 365 + InLeapYear (YearFromDay d)"
  using YearFromDay_bounds [of d] DayFromYear_Suc [of "YearFromDay d"]
        DaysInYear_leap [of "YearFromDay d"]
  unfolding DayWithinYear_def by linarith

lemma MonthFromDay_range: "0 \<le> MonthFromDay d \<and> MonthFromDay d \<le> 11"
  by (simp add: MonthFromDay_def Let_def)

lemma MakeDay_of_month:
  assumes "0 \<le> m" "m \<le> 11"
  shows "MakeDay y m dt = DayFromYear y + month_start m (InLeapYear y) + dt - 1"
  using assms by (simp add: MakeDay_def Let_def)

lemma MakeDay_inverse:
  "MakeDay (YearFromDay d) (MonthFromDay d) dt = d - DateFromDay d + dt"
  using MonthFromDay_range [of d]
  by (simp add: MakeDay_of_month DateFromDay_def DayWithinYear_def)

lemma Day_MakeDate:
  assumes "0 \<le> tm" "tm < msPerDay"
  shows "Day (MakeDate d tm) = d" and "TimeWithinDay (MakeDate d tm) = tm"
proof -
  have e: "MakeDate d tm = msPerDay * d + tm"
    by (simp add: MakeDate_def)
  show "Day (MakeDate d tm) = d"
    unfolding Day_def by (rule int_div_pos_eq [OF e assms])
  show "TimeWithinDay (MakeDate d tm) = tm"
    unfolding TimeWithinDay_def by (rule int_mod_pos_eq [OF e assms])
qed

lemma TimeWithinDay_range: "0 \<le> TimeWithinDay t \<and> TimeWithinDay t < msPerDay"
  by (simp add: TimeWithinDay_def msPerDay_def)

lemma Day_TimeWithinDay: "MakeDate (Day t) (TimeWithinDay t) = t"
  by (simp add: MakeDate_def Day_def TimeWithinDay_def)

lemma MakeDate_add: "MakeDate (d + k) tm = MakeDate d tm + k * msPerDay"
  by (simp add: MakeDate_def algebra_simps)

lemma setDate_eq:
  "setDate t dt = MakeDate (Day t - getDate t + dt) (TimeWithinDay t)"
  by (simp add: setDate_def getFullYear_def getMonth_def getDate_def MakeDay_inverse)

lemma setDate_shift: "setDate t (getDate t + k) = t + k * msPerDay"
proof -
  have "setDate t (getDate t + k) = MakeDate (Day t + k) (TimeWithinDay t)"
    by (simp add: setDate_eq)
  also have "\<dots> = MakeDate (Day t) (TimeWithinDay t) + k * msPerDay"
    by (rule MakeDate_add)
  finally show ?thesis by (simp add: Day_TimeWithinDay)
qed

lemma TimeWithinDay_setDate: "TimeWithinDay (setDate t dt) = TimeWithinDay t"
  using TimeWithinDay_range [of t] by (simp add: setDate_eq Day_MakeDate)

lemma TimeWithinDay_setMonth: "TimeWithinDay (setMonth t m) = TimeWithinDay t"
  using TimeWithinDay_range [of t] by (simp add: setMonth_def Day_MakeDate)

lemma TimeWithinDay_new_Date: "TimeWithinDay (new_Date y m dt) = 0"
  by (simp add: new_Date_def Day_MakeDate msPerDay_def)

lemma new_Date_plain:
  assumes "plain_year t"
  shows "new_Date (getFullYear t) (getMonth t) dt = MakeDate (Day t - getDate t + dt) 0"
proof -
  have "(if 0 \<le> getFullYear t \<and> getFullYear t \<le> 99 then 1900 + getFullYear t
         else getFullYear t) = getFullYear t"
    using assms by (auto simp: plain_year_def)
  then have "new_Date (getFullYear t) (getMonth t) dt =
               MakeDate (MakeDay (getFullYear t) (getMonth t) dt) 0"
    by (simp only: new_Date_def)
  then show ?thesis
    by (simp add: getFullYear_def getMonth_def getDate_def MakeDay_inverse)
qed

lemma startOfDay_plain:
  assumes "plain_year t"
  shows "startOfDay t = MakeDate (Day t) 0"
  using new_Date_plain [OF assms, of "getDate t"] by (simp add: startOfDay_def)

lemma startOfDay_fixed:
  assumes "plain_year t" and "TimeWithinDay t = 0"
  shows "startOfDay t = t"
  using startOfDay_plain [OF assms(1)] Day_TimeWithinDay [of t] assms(2) by simp

lemma TimeWithinDay_startOfDay: "TimeWithinDay (startOfDay t) = 0"
  by (simp add: startOfDay_def TimeWithinDay_new_Date)

lemma MonthFromDay_cases:
  fixes d :: int
  defines "w \<equiv> DayWithinYear d" and "l \<equiv> InLeapYear (YearFromDay d)"
  shows "(MonthFromDay d = 0 \<and> w < 31) \<or>
         (MonthFromDay d = 1 \<and> 31 \<le> w \<and> w < 59 + l) \<or>
         (MonthFromDay d = 2 \<and> 59 + l \<le> w \<and> w < 90 + l) \<or>
         (MonthFromDay d = 3 \<and> 90 + l \<le> w \<and> w < 120 + l) \<or>
         (MonthFromDay d = 4 \<and> 120 + l \<le> w \<and> w < 151 + l) \<or>
         (MonthFromDay d = 5 \<and> 151 + l \<le> w \<and> w < 181 + l) \<or>
         (MonthFromDay d = 6 \<and> 181 + l \<le> w \<and> w < 212 + l) \<or>
         (MonthFromDay d = 7 \<and> 212 + l \<le> w \<and> w < 243 + l) \<or>
         (MonthFromDay d = 8 \<and> 243 + l \<le> w \<and> w < 273 + l) \<or>
         (MonthFromDay d = 9 \<and> 273 + l \<le> w \<and> w < 304 + l) \<or>
         (MonthFromDay d = 10 \<and> 304 + l \<le> w \<and> w < 334 + l) \<or>
         (MonthFromDay d = 11 \<and> 334 + l \<le> w)"
  unfolding MonthFromDay_def Let_def w_def [symmetric] l_def [symmetric]
  by simp


lemma InLeapYear_range: "0 \<le> InLeapYear y \<and> InLeapYear y \<le> 1"
  by (simp add: InLeapYear_def)

lemma month_start_range:
  assumes "0 \<le> m" "m \<le> 11" "0 \<le> l \<and> l \<le> 1"
  shows "0 \<le> month_start m l \<and> month_start m l < 365 + l"
  using assms(3) by (simp add: month_start_def)

lemma month_cases:
  assumes "0 \<le> (m::int)" "m \<le> 11"
  shows "m = 0 \<or> m = 1 \<or> m = 2 \<or> m = 3 \<or> m = 4 \<or> m = 5 \<or> m = 6 \<or> m = 7 \<or> m = 8
         \<or> m = 9 \<or> m = 10 \<or> m = 11"
  using assms by arith

lemma MonthFromDay_of_start:
  assumes "YearFromDay d = y" and "DayWithinYear d = month_start m (InLeapYear y)"
    and "0 \<le> m" "m \<le> 11"
  shows "MonthFromDay d = m"
  using month_cases [OF assms(3,4)] InLeapYear_range [of y] assms(1,2)
  by (elim disjE) (simp_all add: MonthFromDay_def Let_def month_start_def)

lemma first_of_month:
  fixes y m :: int
  assumes "0 \<le> m" "m \<le> 11" and f_def: "f = DayFromYear y + month_start m (InLeapYear y)"
  shows "YearFromDay f = y \<and> MonthFromDay f = m \<and> DateFromDay f = 1"
proof -
  have r: "0 \<le> month_start m (InLeapYear y) \<and>
           month_start m (InLeapYear y) < 365 + InLeapYear y"
    using assms(1,2) InLeapYear_range [of y] by (rule month_start_range)
  have y: "YearFromDay f = y"
  proof (rule YearFromDay_unique)
    show "DayFromYear y \<le> f" using r by (simp add: f_def)
    show "f < DayFromYear (y + 1)"
      using r by (simp add: f_def DayFromYear_Suc DaysInYear_leap)
  qed
  have w: "DayWithinYear f = month_start m (InLeapYear y)"
    using y by (simp add: DayWithinYear_def f_def)
  have m: "MonthFromDay f = m"
    using y w assms(1,2) by (rule MonthFromDay_of_start)
  have "DateFromDay f = 1"
    using y w m by (simp add: DateFromDay_def)
  with y m show ?thesis by simp
qed

lemma month_of_day_bounds:
  "DayFromYear (YearFromDay d) + month_start (MonthFromDay d) (InLeapYear (YearFromDay d)) \<le> d \<and>
   d < DayFromYear (YearFromDay d) + month_start (MonthFromDay d) (InLeapYear (YearFromDay d))
         + 31"
proof -
  let ?l = "InLeapYear (YearFromDay d)"
  have w: "0 \<le> DayWithinYear d \<and> DayWithinYear d < 365 + ?l"
    by (rule DayWithinYear_range)
  have "month_start (MonthFromDay d) ?l \<le> DayWithinYear d \<and>
        DayWithinYear d < month_start (MonthFromDay d) ?l + 31"
    using MonthFromDay_cases [of d] w InLeapYear_range [of "YearFromDay d"]
    by (elim disjE) (simp_all add: month_start_def)
  then show ?thesis by (simp add: DayWithinYear_def)
qed

lemma DateFromDay_range: "1 \<le> DateFromDay d \<and> DateFromDay d \<le> 31"
  using month_of_day_bounds [of d] by (simp add: DateFromDay_def DayWithinYear_def)

section \<open>The month matrix\<close>

lemma js_rem_nonneg: "0 \<le> a \<Longrightarrow> js_rem a 7 = a mod 7"
  by (cases "a = 0") (simp_all add: js_rem_def)

text \<open>The matrix read as 42 steps of one day from its first cell.\<close>

lemma getMonthMatrix_cells:
  "getMonthMatrix v fd =
     (let F = new_Date (getFullYear v) (getMonth v) 1;
          start = F - js_rem (getDay F + (7 - fd)) 7 * msPerDay
      in map (\<lambda>w. map (\<lambda>d. start + (w * 7 + d) * msPerDay) [0..6]) [0..5])"
proof -
  have a: "setDate t (getDate t - k) = t - k * msPerDay" for t k
    using setDate_shift [of t "- k"] by simp
  have b: "setDate t (getDate t + w * 7 + d) = t + (w * 7 + d) * msPerDay" for t w d
    using setDate_shift [of t "w * 7 + d"] by (simp add: add.assoc)
  show ?thesis
    by (simp only: getMonthMatrix_def Let_def a b)
qed

lemma concat_weeks:
  "concat (map (\<lambda>w. map (\<lambda>d. g (w * 7 + d)) [0..6]) [0..5]) = map g [0..(41::int)]"
  by (simp add: upto.simps)

lemma weekday_shift:
  fixes a fd :: int
  assumes "fd = 0 \<or> fd = 1"
  shows "(a - ((a + 4) mod 7 + (7 - fd)) mod 7 + 4) mod 7 = fd"
proof -
  define q where "q = (a + 4) div 7"
  define m where "m = (a + 4) mod 7"
  have a: "a + 4 = 7 * q + m" by (simp add: q_def m_def)
  have m: "0 \<le> m" "m < 7" by (simp_all add: m_def)
  have r: "(m + (7 - fd)) mod 7 = (if fd = 0 \<or> 0 < m then m - fd else 6)"
  proof (cases "fd = 0 \<or> 0 < m")
    case True
    have "m + (7 - fd) = 7 * 1 + (m - fd)" by simp
    moreover have "0 \<le> m - fd" "m - fd < 7" using True m assms by auto
    ultimately have "(m + (7 - fd)) mod 7 = m - fd" by (rule int_mod_pos_eq)
    with True show ?thesis by simp
  next
    case False
    then have "fd = 1" "m = 0" using assms m by auto
    then show ?thesis by simp
  qed
  have "a - (m + (7 - fd)) mod 7 + 4 =
          7 * (if fd = 0 \<or> 0 < m then q else q - 1) + fd"
    unfolding r using a assms m by auto
  moreover have "0 \<le> fd" "fd < 7" using assms by auto
  ultimately have "(a - (m + (7 - fd)) mod 7 + 4) mod 7 = fd"
    by (rule int_mod_pos_eq)
  then show ?thesis by (simp only: m_def)
qed

lemma first_cell_weekday:
  assumes fd: "fd = 0 \<or> fd = 1" and F: "TimeWithinDay F = 0"
  defines "fwd \<equiv> js_rem (getDay F + (7 - fd)) 7"
  shows "0 \<le> fwd \<and> fwd \<le> 6 \<and> getDay (F - fwd * msPerDay) = fd \<and>
         Day (F - fwd * msPerDay) = Day F - fwd"
proof -
  have nn: "0 \<le> getDay F + (7 - fd)"
    using fd by (auto simp: getDay_def WeekDay_def)
  have fwd: "fwd = ((Day F + 4) mod 7 + (7 - fd)) mod 7"
    unfolding fwd_def using js_rem_nonneg [OF nn] by (simp add: getDay_def WeekDay_def)
  have r: "0 \<le> fwd \<and> fwd \<le> 6"
    unfolding fwd by simp
  have "F = MakeDate (Day F) 0"
    using Day_TimeWithinDay [of F] F by simp
  then have "F - fwd * msPerDay = MakeDate (Day F - fwd) 0"
    by (simp add: MakeDate_def algebra_simps)
  then have d: "Day (F - fwd * msPerDay) = Day F - fwd"
    by (simp add: Day_MakeDate msPerDay_def)
  have "getDay (F - fwd * msPerDay) = (Day F - fwd + 4) mod 7"
    by (simp only: getDay_def WeekDay_def d)
  also have "\<dots> = fd"
    unfolding fwd using fd by (rule weekday_shift)
  finally show ?thesis using r d by simp
qed

lemma cells_start_of_day:
  assumes "c \<in> set (concat (getMonthMatrix v fd))"
  shows "TimeWithinDay c = 0"
  using assms
  by (auto simp: getMonthMatrix_def Let_def TimeWithinDay_setDate TimeWithinDay_new_Date)

text \<open>
  For a view date whose year is not from 0 to 99 and \<^verbatim>\<open>firstDay\<close> 0 or 1:
  \<^verbatim>\<open>getMonthMatrix\<close> returns 6 rows of 7 cells, 42 consecutive days (each cell one day
  after the one before, no cell twice); the first cell falls on the weekday \<^verbatim>\<open>firstDay\<close>
  and at most 6 days before the first day of the view month; and every day of the view
  month is a cell. The first five parts hold for every view date.
\<close>

theorem getMonthMatrix_grid:
  assumes fd: "fd = 0 \<or> fd = 1"
  shows "length (getMonthMatrix v fd) = 6 \<and>
         (\<forall>row \<in> set (getMonthMatrix v fd). length row = 7) \<and>
         concat (getMonthMatrix v fd) =
           map (\<lambda>k. hd (concat (getMonthMatrix v fd)) + k * msPerDay) [0..41] \<and>
         distinct (concat (getMonthMatrix v fd)) \<and>
         getDay (hd (concat (getMonthMatrix v fd))) = fd \<and>
         (plain_year v \<longrightarrow>
            (\<exists>j. 0 \<le> j \<and> j \<le> 6 \<and>
                 getFullYear (hd (concat (getMonthMatrix v fd)) + j * msPerDay) = getFullYear v \<and>
                 getMonth (hd (concat (getMonthMatrix v fd)) + j * msPerDay) = getMonth v \<and>
                 getDate (hd (concat (getMonthMatrix v fd)) + j * msPerDay) = 1) \<and>
            (\<forall>t. TimeWithinDay t = 0 \<and> getFullYear t = getFullYear v \<and>
                 getMonth t = getMonth v \<longrightarrow>
                 t \<in> set (concat (getMonthMatrix v fd))))"
proof -
  define F where "F = new_Date (getFullYear v) (getMonth v) 1"
  define fwd where "fwd = js_rem (getDay F + (7 - fd)) 7"
  define start where "start = F - fwd * msPerDay"
  have F0: "TimeWithinDay F = 0"
    by (simp add: F_def TimeWithinDay_new_Date)
  have w: "0 \<le> fwd \<and> fwd \<le> 6 \<and> getDay start = fd \<and> Day start = Day F - fwd"
    unfolding start_def fwd_def using fd F0 by (rule first_cell_weekday)
  have rows: "getMonthMatrix v fd =
                map (\<lambda>w. map (\<lambda>d. start + (w * 7 + d) * msPerDay) [0..6]) [0..5]"
    by (simp add: getMonthMatrix_cells Let_def start_def fwd_def F_def)
  have cells: "concat (getMonthMatrix v fd) = map (\<lambda>k. start + k * msPerDay) [0..41]"
    unfolding rows by (rule concat_weeks)
  have "[0..41] = 0 # [1..(41::int)]"
    by (simp add: upto_rec1)
  then have first: "hd (concat (getMonthMatrix v fd)) = start"
    by (simp add: cells)
  have len: "length (getMonthMatrix v fd) = 6"
    by (simp add: rows)
  have row: "\<forall>row \<in> set (getMonthMatrix v fd). length row = 7"
    by (auto simp: rows)
  have "inj_on (\<lambda>k. start + k * msPerDay) (set [0..41])"
    by (rule inj_onI) (simp add: msPerDay_def)
  then have dist: "distinct (concat (getMonthMatrix v fd))"
    unfolding cells by (simp add: distinct_map)
  have plain:
    "(\<exists>j. 0 \<le> j \<and> j \<le> 6 \<and>
          getFullYear (start + j * msPerDay) = getFullYear v \<and>
          getMonth (start + j * msPerDay) = getMonth v \<and>
          getDate (start + j * msPerDay) = 1) \<and>
     (\<forall>t. TimeWithinDay t = 0 \<and> getFullYear t = getFullYear v \<and> getMonth t = getMonth v \<longrightarrow>
          t \<in> set (concat (getMonthMatrix v fd)))"
    if py: "plain_year v"
  proof -
    let ?Y = "YearFromDay (Day v)" and ?M = "MonthFromDay (Day v)"
    have "F = MakeDate (Day v - getDate v + 1) 0"
      unfolding F_def using py by (rule new_Date_plain)
    then have "Day F = Day v - getDate v + 1"
      by (simp add: Day_MakeDate msPerDay_def)
    then have dF: "Day F = DayFromYear ?Y + month_start ?M (InLeapYear ?Y)"
      by (simp add: getDate_def DateFromDay_def DayWithinYear_def)
    have fm: "YearFromDay (Day F) = ?Y \<and> MonthFromDay (Day F) = ?M \<and> DateFromDay (Day F) = 1"
      using MonthFromDay_range [of "Day v"] dF by (intro first_of_month) simp_all
    have "start + fwd * msPerDay = F"
      by (simp add: start_def)
    with fm w have one:
      "\<exists>j. 0 \<le> j \<and> j \<le> 6 \<and>
           getFullYear (start + j * msPerDay) = getFullYear v \<and>
           getMonth (start + j * msPerDay) = getMonth v \<and>
           getDate (start + j * msPerDay) = 1"
      by (intro exI [of _ fwd]) (simp add: getFullYear_def getMonth_def getDate_def)
    have two: "t \<in> set (concat (getMonthMatrix v fd))"
      if t: "TimeWithinDay t = 0 \<and> getFullYear t = getFullYear v \<and> getMonth t = getMonth v"
      for t
    proof -
      have yt: "YearFromDay (Day t) = ?Y" and mt: "MonthFromDay (Day t) = ?M"
        using t by (simp_all add: getFullYear_def getMonth_def)
      have b: "Day F \<le> Day t \<and> Day t < Day F + 31"
        using month_of_day_bounds [of "Day t"] unfolding yt mt dF by simp
      define k where "k = Day t - Day F + fwd"
      have k: "0 \<le> k \<and> k \<le> 41" using b w by (simp add: k_def)
      have "t = MakeDate (Day t) 0"
        using Day_TimeWithinDay [of t] t by simp
      moreover have "F = MakeDate (Day F) 0"
        using Day_TimeWithinDay [of F] F0 by simp
      ultimately have "t = start + k * msPerDay"
        unfolding start_def k_def MakeDate_def by (simp add: algebra_simps)
      moreover have "k \<in> set [0..41]" using k by simp
      ultimately show ?thesis unfolding cells by (simp only: set_map image_eqI)
    qed
    from one two show ?thesis by blast
  qed
  show ?thesis
    using len row cells dist w plain unfolding first by blast
qed

theorem getMonthMatrix_grid_witness:
  "length (getMonthMatrix (new_Date 2024 8 17) 1) = 6 \<and>
   getDay (hd (concat (getMonthMatrix (new_Date 2024 8 17) 1))) = 1 \<and>
   hd (concat (getMonthMatrix (new_Date 2024 8 17) 1)) = new_Date 2024 7 26 \<and>
   new_Date 2024 8 30 \<in> set (concat (getMonthMatrix (new_Date 2024 8 17) 1))"
proof -
  have py: "plain_year (new_Date 2024 8 17)" by code_simp
  have t: "TimeWithinDay (new_Date 2024 8 30) = 0 \<and>
           getFullYear (new_Date 2024 8 30) = getFullYear (new_Date 2024 8 17) \<and>
           getMonth (new_Date 2024 8 30) = getMonth (new_Date 2024 8 17)" by code_simp
  have h: "hd (concat (getMonthMatrix (new_Date 2024 8 17) 1)) = new_Date 2024 7 26"
    by code_simp
  show ?thesis
    using getMonthMatrix_grid [of 1 "new_Date 2024 8 17"] py t h by blast
qed


section \<open>The values DateInput passes to onChange\<close>

lemma selectDate_calls:
  "di_calls (selectDate P d S) =
     di_calls S @ (if isDisabled P d \<or> di_disabled P \<or> \<not> di_has_onChange P then []
                   else [Some (startOfDay d)])"
  by (simp add: selectDate_def di_onChange_def)

lemma selectDate_frame:
  "viewDate (selectDate P d S) = viewDate S \<and> focusedDay (selectDate P d S) = focusedDay S"
  by (simp add: selectDate_def di_onChange_def)

lemma move_focus_calls: "di_calls (move_focus nxt S) = di_calls S"
  by (simp add: move_focus_def)

lemma handleGridKeyDown_calls:
  "di_calls (handleGridKeyDown P key S) =
     (case focusedDay S of
        None \<Rightarrow> di_calls S
      | Some f \<Rightarrow>
          if key = ''Enter'' \<or> key = '' '' then di_calls (selectDate P f S) else di_calls S)"
  by (cases "focusedDay S") (simp_all add: handleGridKeyDown_def move_focus_calls)

text \<open>What an event adds to the log of \<^verbatim>\<open>onChange\<close> calls.\<close>

lemma new_calls_cases:
  "di_calls (dispatch P ev S) = di_calls S @ new_calls P ev S \<and>
   (new_calls P ev S = [] \<or>
    (ev = ClickClear \<and> \<not> di_disabled P \<and> new_calls P ev S = [None]) \<or>
    (\<exists>d. selected_day S ev = Some d \<and> \<not> isDisabled P d \<and> \<not> di_disabled P \<and>
         (at_start_of_day S \<longrightarrow> TimeWithinDay d = 0) \<and>
         new_calls P ev S = [Some (startOfDay d)]))"
proof (cases ev)
  case ViewEffect
  then show ?thesis by (simp add: new_calls_def)
next
  case Open
  then show ?thesis by (simp add: new_calls_def open_calendar_def)
next
  case Close
  then show ?thesis by (simp add: new_calls_def)
next
  case (HoverDay day)
  then show ?thesis by (simp add: new_calls_def)
next
  case (ClickDay day)
  show ?thesis
  proof (cases "isOpen S \<and> day \<in> set (concat (weeks P S)) \<and>
                \<not> (isDisabled P day \<or> di_disabled P)")
    case True
    then have "day \<in> set (concat (getMonthMatrix (viewDate S) (firstDayOfWeek P)))"
      by (simp only: weeks_def)
    then have "TimeWithinDay day = 0"
      by (rule cells_start_of_day)
    moreover have "dispatch P ev S = selectDate P day S"
      using True ClickDay by (simp add: clickDay_def del: set_concat)
    ultimately show ?thesis
      using True ClickDay by (simp add: new_calls_def selectDate_calls)
  next
    case False
    then have "dispatch P ev S = S"
      using ClickDay by (auto simp add: clickDay_def simp del: set_concat)
    then show ?thesis by (simp add: new_calls_def)
  qed
next
  case (GridKey key)
  show ?thesis
  proof (cases "focusedDay S")
    case None
    with GridKey show ?thesis
      by (simp add: new_calls_def handleGridKeyDown_calls)
  next
    case (Some f)
    with GridKey show ?thesis
      by (simp add: new_calls_def handleGridKeyDown_calls selectDate_calls at_start_of_day_def)
  qed
next
  case (ClickToday now)
  then show ?thesis
    by (simp add: new_calls_def clickToday_def Let_def selectDate_calls
          TimeWithinDay_startOfDay)
next
  case ClickClear
  then show ?thesis
    by (simp add: new_calls_def clickClear_def clearDate_def di_onChange_def)
next
  case PrevMonth
  then show ?thesis by (simp add: new_calls_def)
next
  case NextMonth
  then show ?thesis by (simp add: new_calls_def)
qed

lemma acceptable_day:
  assumes "\<not> isDisabled P d" and "plain_year d" and "TimeWithinDay d = 0"
    and "\<forall>m. di_min P = Some m \<longrightarrow> plain_year m"
    and "\<forall>m. di_max P = Some m \<longrightarrow> plain_year m"
  shows "acceptable P (Some (startOfDay d))"
proof -
  have "startOfDay d = d" using assms(2,3) by (rule startOfDay_fixed)
  moreover have "startOfDay m = MakeDate (Day m) 0" if "di_min P = Some m" for m
    using that assms(4) by (simp add: startOfDay_plain)
  moreover have "startOfDay m = MakeDate (Day m) 0" if "di_max P = Some m" for m
    using that assms(5) by (simp add: startOfDay_plain)
  ultimately show ?thesis
    using assms(1,3)
    by (auto simp: acceptable_def isDisabled_def isOutOfRange_def split: option.splits)
qed

lemma TimeWithinDay_addMonths: "TimeWithinDay (addMonths t k) = TimeWithinDay t"
  by (simp add: addMonths_def TimeWithinDay_setMonth)

lemma move_focus_start_of_day:
  "TimeWithinDay nxt = 0 \<Longrightarrow> at_start_of_day (move_focus nxt S)"
  by (simp add: at_start_of_day_def move_focus_def TimeWithinDay_new_Date)

lemma selectDate_start_of_day:
  "at_start_of_day (selectDate P d S) = at_start_of_day S"
  using selectDate_frame [of P d S] by (simp add: at_start_of_day_def)

lemma handleGridKeyDown_start_of_day:
  assumes "at_start_of_day S"
  shows "at_start_of_day (handleGridKeyDown P key S)"
proof (cases "focusedDay S")
  case None
  then show ?thesis using assms by (simp add: handleGridKeyDown_def)
next
  case (Some f)
  then have f: "TimeWithinDay f = 0" using assms by (simp add: at_start_of_day_def)
  have esc: "at_start_of_day (S\<lparr>isOpen := False\<rparr>)"
    using assms by (simp add: at_start_of_day_def)
  show ?thesis
    using Some f assms esc
    by (simp add: handleGridKeyDown_def move_focus_start_of_day TimeWithinDay_setDate
          TimeWithinDay_new_Date TimeWithinDay_addMonths selectDate_start_of_day)
qed

lemma dispatch_start_of_day:
  assumes "at_start_of_day S"
  shows "at_start_of_day (dispatch P ev S)"
proof (cases ev)
  case ViewEffect
  have "TimeWithinDay (clamp_date (viewDate S) (di_min P) (di_max P)) = 0"
    using assms
    by (simp add: clamp_date_def at_start_of_day_def TimeWithinDay_startOfDay
          split: option.splits)
  then show ?thesis
    using assms ViewEffect by (simp add: at_start_of_day_def)
next
  case Open
  then show ?thesis
    using assms by (simp add: open_calendar_def at_start_of_day_def TimeWithinDay_startOfDay)
next
  case Close
  then show ?thesis using assms by (simp add: at_start_of_day_def)
next
  case (HoverDay day)
  show ?thesis
  proof (cases "isOpen S \<and> day \<in> set (concat (weeks P S))")
    case True
    then have "day \<in> set (concat (getMonthMatrix (viewDate S) (firstDayOfWeek P)))"
      by (simp only: weeks_def)
    then have "TimeWithinDay day = 0"
      by (rule cells_start_of_day)
    moreover have "dispatch P ev S = S\<lparr>focusedDay := Some day\<rparr>"
      using True HoverDay by (simp del: set_concat)
    ultimately show ?thesis
      using assms by (simp add: at_start_of_day_def)
  next
    case False
    then have "dispatch P ev S = S"
      using HoverDay by (auto simp del: set_concat)
    then show ?thesis using assms by simp
  qed
next
  case (ClickDay day)
  then show ?thesis
    using assms by (simp add: clickDay_def selectDate_start_of_day)
next
  case (GridKey key)
  then show ?thesis
    using assms by (simp add: handleGridKeyDown_start_of_day)
next
  case (ClickToday now)
  have "at_start_of_day
          (S\<lparr>viewDate := new_Date (getFullYear (startOfDay now)) (getMonth (startOfDay now)) 1,
             focusedDay := Some (startOfDay now)\<rparr>)"
    by (simp add: at_start_of_day_def TimeWithinDay_new_Date TimeWithinDay_startOfDay)
  then have "at_start_of_day (clickToday P now S)"
    by (simp add: clickToday_def Let_def selectDate_start_of_day)
  then show ?thesis
    using assms ClickToday by simp
next
  case ClickClear
  then show ?thesis
    using assms by (simp add: clickClear_def clearDate_def di_onChange_def at_start_of_day_def)
next
  case PrevMonth
  then show ?thesis
    using assms by (simp add: at_start_of_day_def TimeWithinDay_addMonths)
next
  case NextMonth
  then show ?thesis
    using assms by (simp add: at_start_of_day_def TimeWithinDay_addMonths)
qed

lemma mount_start_of_day: "at_start_of_day (di_mount P now)"
  by (simp add: di_mount_def at_start_of_day_def TimeWithinDay_startOfDay split: option.splits)


text \<open>
  When the selected day, \<^verbatim>\<open>min\<close> and \<^verbatim>\<open>max\<close> have years that are not from 0 to 99: every
  value an event makes DateInput pass to \<^verbatim>\<open>onChange\<close> is \<^verbatim>\<open>null\<close> (from the Clear button)
  or a start-of-day date that is not before the start of \<^verbatim>\<open>min\<close>'s day, not after the
  start of \<^verbatim>\<open>max\<close>'s day and not disabled by \<^verbatim>\<open>disabledDates\<close>. For every day: selecting a disabled or out-of-range day
  by a click, by Enter or Space on the focused day, or by the Today button makes no
  call, and a disabled input makes no call at all. The focused day and the view date
  stay at the start of a day, as they are after mount.
\<close>

theorem DateInput_onChange_acceptable:
  assumes "at_start_of_day S"
  shows "di_calls (dispatch P ev S) = di_calls S @ new_calls P ev S \<and>
         ((\<forall>d. selected_day S ev = Some d \<longrightarrow> plain_year d) \<and>
          (\<forall>m. di_min P = Some m \<longrightarrow> plain_year m) \<and>
          (\<forall>m. di_max P = Some m \<longrightarrow> plain_year m) \<longrightarrow>
            (\<forall>c \<in> set (new_calls P ev S). acceptable P c)) \<and>
         (\<forall>d. selected_day S ev = Some d \<and> isDisabled P d \<longrightarrow> new_calls P ev S = []) \<and>
         (di_disabled P \<longrightarrow> new_calls P ev S = []) \<and>
         at_start_of_day (dispatch P ev S) \<and>
         at_start_of_day (di_mount P now)"
proof -
  note c = new_calls_cases [of P ev S]
  have one: "\<forall>c \<in> set (new_calls P ev S). acceptable P c"
    if py: "\<forall>d. selected_day S ev = Some d \<longrightarrow> plain_year d"
      and pmin: "\<forall>m. di_min P = Some m \<longrightarrow> plain_year m"
      and pmax: "\<forall>m. di_max P = Some m \<longrightarrow> plain_year m"
    using c
  proof (elim conjE disjE exE)
    assume "new_calls P ev S = []"
    then show ?thesis by simp
  next
    assume "new_calls P ev S = [None]"
    then show ?thesis by (simp add: acceptable_def)
  next
    fix d
    assume d: "selected_day S ev = Some d" "\<not> isDisabled P d"
      "at_start_of_day S \<longrightarrow> TimeWithinDay d = 0"
      "new_calls P ev S = [Some (startOfDay d)]"
    have "acceptable P (Some (startOfDay d))"
      using d(2) py d(1) d(3) assms pmin pmax by (intro acceptable_day) simp_all
    then show ?thesis using d(4) by simp
  qed
  have two: "new_calls P ev S = []" if "selected_day S ev = Some d \<and> isDisabled P d" for d
    using c that by auto
  have three: "new_calls P ev S = []" if "di_disabled P"
    using c that by auto
  show ?thesis
    using c one two three dispatch_start_of_day [OF assms] mount_start_of_day by blast
qed

theorem DateInput_onChange_acceptable_witness:
  "di_calls (dispatch (dateInput_example\<lparr>di_value := Some (new_Date 1400 5 15)\<rparr>)
               (ClickDay (new_Date 1400 5 20))
               (dispatch (dateInput_example\<lparr>di_value := Some (new_Date 1400 5 15)\<rparr>) Open
                  (di_mount (dateInput_example\<lparr>di_value := Some (new_Date 1400 5 15)\<rparr>) 0)))
     = [Some (new_Date 1400 5 20)] \<and>
   acceptable (dateInput_example\<lparr>di_value := Some (new_Date 1400 5 15)\<rparr>)
     (Some (new_Date 1400 5 20))"
proof -
  let ?P = "dateInput_example\<lparr>di_value := Some (new_Date 1400 5 15)\<rparr>"
  let ?S = "dispatch ?P Open (di_mount ?P 0)"
  have s: "at_start_of_day ?S" by code_simp
  have "plain_year (new_Date 1400 5 20)" by code_simp
  then have p: "\<forall>d. selected_day ?S (ClickDay (new_Date 1400 5 20)) = Some d \<longrightarrow> plain_year d"
    by simp
  have "plain_year (new_Date 1500 0 1)" by code_simp
  then have m: "(\<forall>m. di_min ?P = Some m \<longrightarrow> plain_year m) \<and>
                (\<forall>m. di_max ?P = Some m \<longrightarrow> plain_year m)"
    by (simp add: dateInput_example_def)
  have n: "new_calls ?P (ClickDay (new_Date 1400 5 20)) ?S = [Some (new_Date 1400 5 20)]"
    by code_simp
  have e: "di_calls ?S = []" by code_simp
  show ?thesis
    using DateInput_onChange_acceptable [OF s, of ?P "ClickDay (new_Date 1400 5 20)" 0] p m n e
    by simp
qed


section \<open>The page numbers of buildRange\<close>

text \<open>On whole numbers of moderate size the arithmetic of doubles is exact.\<close>

lemma is_double_whole: "\<bar>n\<bar> \<le> 2 ^ 53 \<Longrightarrow> is_double (real_of_int n)"
  by (rule is_double_of_int)

lemma whole_add:
  "\<bar>a + b\<bar> \<le> 2 ^ 53 \<Longrightarrow> js_add (whole a) (whole b) = whole (a + b)"
  using js_add_exact [of "of_int a" "of_int b"] is_double_whole [of "a + b"]
  by (simp add: whole_def)

lemma whole_sub:
  "\<bar>a - b\<bar> \<le> 2 ^ 53 \<Longrightarrow> js_sub (whole a) (whole b) = whole (a - b)"
  using js_sub_exact [of "of_int a" "of_int b"] is_double_whole [of "a - b"]
  by (simp add: whole_def)

lemma whole_one: "Fin 1 = whole 1"
  by (simp add: whole_def)

lemma whole_nat: "Fin (of_nat i) = whole (int i)"
  by (simp add: whole_def)

lemma whole_min: "Math_min (whole a) (whole b) = whole (min a b)"
  by (simp add: whole_def Math_min_def js_lt_def min_def)

lemma whole_max: "Math_max (whole a) (whole b) = whole (max a b)"
  by (simp add: whole_def Math_max_def js_lt_def max_def)

lemma whole_lt: "js_lt (whole a) (whole b) = (a < b)"
  by (simp add: whole_def js_lt_def)

lemma whole_same: "same_value_zero (whole a) (whole b) = (a = b)"
  by (simp add: whole_def same_value_zero_def js_eq_def)

lemma whole_inj: "(whole a = whole b) = (a = b)"
  by (simp add: whole_def)

lemma upto_as_map: "[a..b] = map (\<lambda>i. a + int i) [0..<nat (b - a + 1)]"
  by (rule nth_equalityI) simp_all

lemma whole_range:
  assumes "\<bar>a\<bar> \<le> 2 ^ 52" and "\<bar>b\<bar> \<le> 2 ^ 52" and "b - a + 1 \<le> 4294967295"
  shows "range_js (whole a) (whole b) = Inr (map whole [a..b])"
proof (cases "b < a")
  case True
  then show ?thesis by (simp add: range_js_def whole_lt)
next
  case False
  have d: "js_sub (whole b) (whole a) = whole (b - a)"
    using assms by (intro whole_sub) simp
  have l: "js_add (whole (b - a)) (Fin 1) = whole (b - a + 1)"
    unfolding whole_one using assms by (intro whole_add) simp
  have n: "array_length (whole (b - a + 1)) = Inr (nat (b - a + 1))"
    using False assms(3) by (simp add: array_length_def whole_def)
  have "js_add (whole a) (Fin (of_nat i)) = whole (a + int i)" if "i < nat (b - a + 1)" for i
    unfolding whole_nat using that assms by (intro whole_add) simp
  then have "map (\<lambda>i. js_add (whole a) (Fin (of_nat i))) [0..<nat (b - a + 1)]
               = map (\<lambda>i. whole (a + int i)) [0..<nat (b - a + 1)]"
    by simp
  also have "\<dots> = map whole [a..b]"
    by (simp add: upto_as_map [of a b] comp_def)
  finally show ?thesis
    using False by (simp add: range_js_def whole_lt d l n)
qed

lemma items_includes_iff:
  "items_includes its x = (\<exists>q \<in> set (pageNumbers its). same_value_zero q x)"
  by (induction its rule: pageNumbers.induct) auto

lemma push_missing_fresh:
  "\<forall>p \<in> set ps. whole p \<notin> set (pageNumbers its) \<Longrightarrow> distinct ps \<Longrightarrow>
   \<forall>q \<in> set (pageNumbers its). \<exists>k. q = whole k \<Longrightarrow>
     push_missing its (map whole ps) = its @ map (\<lambda>n. Page (whole n)) ps"
proof (induction ps arbitrary: its)
  case Nil
  then show ?case by simp
next
  case (Cons p ps)
  have "\<not> items_includes its (whole p)"
  proof
    assume "items_includes its (whole p)"
    then obtain q where q: "q \<in> set (pageNumbers its)" "same_value_zero q (whole p)"
      by (auto simp: items_includes_iff)
    then obtain k where "q = whole k" using Cons.prems(3) by blast
    then have "q = whole p" using q(2) by (simp add: whole_same)
    then show False using q(1) Cons.prems(1) by simp
  qed
  moreover have "\<forall>q \<in> set ps. whole q \<notin> set (pageNumbers (its @ [Page (whole p)]))"
    using Cons.prems(1,2) by (auto simp: pageNumbers_append whole_inj)
  moreover have "distinct ps" using Cons.prems(2) by simp
  moreover have "\<forall>q \<in> set (pageNumbers (its @ [Page (whole p)])). \<exists>k. q = whole k"
    using Cons.prems(3) by (auto simp: pageNumbers_append)
  ultimately have "push_missing (its @ [Page (whole p)]) (map whole ps)
                     = (its @ [Page (whole p)]) @ map (\<lambda>n. Page (whole n)) ps"
    using Cons.IH by blast
  then show ?case using \<open>\<not> items_includes its (whole p)\<close> by simp
qed

lemma pageNumbers_whole: "pageNumbers (map (\<lambda>n. Page (whole n)) ns) = map whole ns"
  by (induction ns) simp_all

text \<open>The end pages never repeat an item: the test of the loop always succeeds.\<close>

lemma buildRange_shape:
  assumes "1 \<le> tp" and "1 \<le> pg" and "pg \<le> tp" and "0 \<le> sib" and "1 \<le> bc"
    and "tp \<le> 4294967295" and "sib \<le> 4294967295" and "bc \<le> 4294967295"
  shows "buildRange (whole pg) (whole tp) (whole sib) (whole bc) =
     Inr (map (\<lambda>n. Page (whole n)) [1..min bc tp]
          @ (if bc + 1 < max (pg - sib) (bc + 1) then [Ellipsis] else [])
          @ map (\<lambda>n. Page (whole n)) [max (pg - sib) (bc + 1)..min (pg + sib) (tp - bc)]
          @ (if min (pg + sib) (tp - bc) < tp - bc then [Ellipsis] else [])
          @ map (\<lambda>n. Page (whole n)) [max (tp - bc + 1) (bc + 1)..tp])"
proof -
  define l where "l = max (pg - sib) (bc + 1)"
  define r where "r = min (pg + sib) (tp - bc)"
  define e where "e = max (tp - bc + 1) (bc + 1)"
  define a where "a = min bc tp"
  define its where "its = map (\<lambda>n. Page (whole n)) [1..a]
          @ (if bc + 1 < l then [Ellipsis] else [])
          @ map (\<lambda>n. Page (whole n)) [l..r]
          @ (if r < tp - bc then [Ellipsis] else [])"
  have b: "2 \<le> l" "l \<le> 4294967296" "r \<le> tp - bc" "- 4294967295 \<le> r" "a \<le> tp" "1 \<le> a"
    "2 \<le> e" "e \<le> 4294967296"
    using assms by (auto simp: l_def r_def e_def a_def)
  have ar: "js_sub (whole tp) (whole bc) = whole (tp - bc)"
    "js_add (whole (tp - bc)) (Fin 1) = whole (tp - bc + 1)"
    "js_add (whole bc) (Fin 1) = whole (bc + 1)"
    "js_sub (whole pg) (whole sib) = whole (pg - sib)"
    "js_add (whole pg) (whole sib) = whole (pg + sib)"
    unfolding whole_one using assms by (simp_all add: whole_add whole_sub)
  have s: "range_js (Fin 1) (whole a) = Inr (map whole [1..a])"
    unfolding whole_one using b assms by (intro whole_range) simp_all
  have m: "range_js (whole l) (whole r) = Inr (map whole [l..r])"
    using b assms by (intro whole_range) simp_all
  have en: "range_js (whole e) (whole tp) = Inr (map whole [e..tp])"
    using b assms by (intro whole_range) simp_all
  have pn: "pageNumbers its = map whole ([1..a] @ [l..r])"
    by (simp add: its_def pageNumbers_append pageNumbers_whole)
  have fresh: "\<forall>p \<in> set [e..tp]. whole p \<notin> set (pageNumbers its)"
    unfolding pn using assms by (auto simp: whole_inj e_def r_def a_def)
  have "push_missing its (map whole [e..tp]) = its @ map (\<lambda>n. Page (whole n)) [e..tp]"
    using fresh by (rule push_missing_fresh) (auto simp: pn)
  then have "buildRange (whole pg) (whole tp) (whole sib) (whole bc)
               = Inr (its @ map (\<lambda>n. Page (whole n)) [e..tp])"
    by (simp add: buildRange_def ar whole_min whole_max whole_lt s m en Let_def
          l_def [symmetric] r_def [symmetric] e_def [symmetric] a_def [symmetric]
          its_def [symmetric] comp_def)
  then show ?thesis
    by (simp add: its_def l_def r_def e_def a_def)
qed

lemma ok_pages_cons:
  "ellipses_ok (Page a # map Page ns @ rest) = ellipses_ok (Page (last (a # ns)) # rest)"
proof (induction ns arbitrary: a)
  case Nil
  then show ?case by simp
next
  case (Cons n ns)
  have "ellipses_ok (Page a # map Page (n # ns) @ rest)
          = ellipses_ok (Page n # map Page ns @ rest)"
    by simp
  then show ?case using Cons.IH [of n] by simp
qed

lemma ok_pages_append:
  assumes "ns \<noteq> []"
  shows "ellipses_ok (map Page ns @ rest) = ellipses_ok (Page (last ns) # rest)"
  using assms ok_pages_cons [of "hd ns" "tl ns" rest] by (cases ns) simp_all

lemma ok_upto:
  assumes "i \<le> j"
  shows "ellipses_ok (map (\<lambda>n. Page (whole n)) [i..j] @ rest) = ellipses_ok (Page (whole j) # rest)"
proof -
  have "[i..j] \<noteq> []" using assms by simp
  moreover have "last [i..j] = j" using assms by (simp add: upto_rec2)
  ultimately show ?thesis
    using ok_pages_append [of "map whole [i..j]" rest] by (simp add: comp_def last_map)
qed

lemma ok_gap_upto:
  assumes "i \<le> j" and "\<bar>a + 1\<bar> \<le> 2 ^ 53"
  shows "ellipses_ok (Page (whole a) # Ellipsis # map (\<lambda>n. Page (whole n)) [i..j] @ rest) =
           (a + 1 < i \<and> ellipses_ok (map (\<lambda>n. Page (whole n)) [i..j] @ rest))"
proof -
  have "js_add (whole a) (Fin 1) = whole (a + 1)"
    unfolding whole_one using assms(2) by (rule whole_add)
  then show ?thesis
    using assms(1) by (simp add: upto_rec1 [of i j] whole_lt)
qed

text \<open>
  For whole numbers up to \<open>2 ^ 32 - 1\<close> with \<^verbatim>\<open>totalPages \<ge> 1\<close>,
  \<^verbatim>\<open>1 \<le> page \<le> totalPages\<close>, \<^verbatim>\<open>siblingCount \<ge> 0\<close> and \<^verbatim>\<open>boundaryCount \<ge> 1\<close>,
  \<^verbatim>\<open>buildRange\<close> returns a range whose page numbers are whole numbers, strictly increasing
  (so none is repeated), within \<^verbatim>\<open>[1, totalPages]\<close>, with 1, the current page and
  \<^verbatim>\<open>totalPages\<close> among them. When moreover \<^verbatim>\<open>boundaryCount = 1\<close> or
  \<^verbatim>\<open>2 * boundaryCount < totalPages\<close>, every ellipsis stands between two page numbers
  that leave out at least one page.
\<close>

theorem buildRange_numbers:
  assumes "1 \<le> tp" and "1 \<le> pg" and "pg \<le> tp" and "0 \<le> sib" and "1 \<le> bc"
    and "tp \<le> 4294967295" and "sib \<le> 4294967295" and "bc \<le> 4294967295"
  shows "\<exists>its ns.
           buildRange (whole pg) (whole tp) (whole sib) (whole bc) = Inr its \<and>
           pageNumbers its = map whole ns \<and>
           sorted_wrt (<) ns \<and> distinct ns \<and> set ns \<subseteq> {1..tp} \<and>
           1 \<in> set ns \<and> pg \<in> set ns \<and> tp \<in> set ns \<and>
           (bc = 1 \<or> 2 * bc < tp \<longrightarrow> ellipses_ok its)"
proof -
  define l where "l = max (pg - sib) (bc + 1)"
  define r where "r = min (pg + sib) (tp - bc)"
  define e where "e = max (tp - bc + 1) (bc + 1)"
  define a where "a = min bc tp"
  define E1 where "E1 = (if bc + 1 < l then [Ellipsis] else [])"
  define E2 where "E2 = (if r < tp - bc then [Ellipsis] else [])"
  define its where "its = map (\<lambda>n. Page (whole n)) [1..a] @ E1
                          @ map (\<lambda>n. Page (whole n)) [l..r] @ E2
                          @ map (\<lambda>n. Page (whole n)) [e..tp]"
  define ns where "ns = [1..a] @ [l..r] @ [e..tp]"
  have shape: "buildRange (whole pg) (whole tp) (whole sib) (whole bc) = Inr its"
    using buildRange_shape [OF assms]
    by (simp only: its_def l_def r_def e_def a_def E1_def E2_def)
  have pn: "pageNumbers its = map whole ns"
    by (simp add: its_def ns_def E1_def E2_def pageNumbers_append pageNumbers_whole)
  have srt: "sorted_wrt (<) ns"
    unfolding ns_def l_def r_def e_def a_def by (auto simp: sorted_wrt_append)
  then have dist: "distinct ns"
    by (simp add: strict_sorted_iff)
  have sub: "set ns \<subseteq> {1..tp}"
    unfolding ns_def l_def r_def e_def a_def using assms by auto
  have one: "1 \<in> set ns"
    unfolding ns_def l_def r_def e_def a_def using assms by auto
  have cur: "pg \<in> set ns"
    unfolding ns_def l_def r_def e_def a_def using assms by auto
  have lst: "tp \<in> set ns"
    unfolding ns_def l_def r_def e_def a_def using assms by auto
  have ok: "ellipses_ok its" if h: "bc = 1 \<or> 2 * bc < tp"
  proof -
    have a1: "1 \<le> a" using assms by (simp add: a_def)
    have small: "\<bar>a + 1\<bar> \<le> 2 ^ 53" "\<bar>r + 1\<bar> \<le> 2 ^ 53"
      using assms by (auto simp: a_def r_def)
    show ?thesis
    proof (cases "l \<le> r")
      case True
      then have b: "a = bc" "e = tp - bc + 1" "e \<le> tp"
        using assms by (auto simp: l_def r_def a_def e_def)
      have tail: "ellipses_ok (Page (whole r) # E2 @ map (\<lambda>n. Page (whole n)) [e..tp])"
      proof (cases "r < tp - bc")
        case True
        then have "r + 1 < e" using b by simp
        moreover have "E2 = [Ellipsis]" using True by (simp add: E2_def)
        ultimately show ?thesis
          using ok_gap_upto [OF b(3) small(2), of "[]"] ok_upto [OF b(3), of "[]"] by simp
      next
        case False
        then have "E2 = []" by (simp add: E2_def)
        then show ?thesis
          using ok_pages_cons [of "whole r" "map whole [e..tp]" "[]"] by (simp add: comp_def)
      qed
      have mid: "ellipses_ok (map (\<lambda>n. Page (whole n)) [l..r] @ E2
                              @ map (\<lambda>n. Page (whole n)) [e..tp])"
        using tail ok_upto [OF True, of "E2 @ map (\<lambda>n. Page (whole n)) [e..tp]"] by simp
      have "ellipses_ok (Page (whole a) # E1 @ map (\<lambda>n. Page (whole n)) [l..r] @ E2
                         @ map (\<lambda>n. Page (whole n)) [e..tp])"
      proof (cases "bc + 1 < l")
        case True
        then have "E1 = [Ellipsis]" by (simp add: E1_def)
        then show ?thesis
          using mid True b(1)
            ok_gap_upto [OF \<open>l \<le> r\<close> small(1), of "E2 @ map (\<lambda>n. Page (whole n)) [e..tp]"]
          by simp
      next
        case False
        then have "E1 = []" by (simp add: E1_def)
        moreover have "last (whole a # map whole [l..r]) = whole r"
          using \<open>l \<le> r\<close> by (simp add: upto_rec2)
        ultimately show ?thesis
          using tail ok_pages_cons [of "whole a" "map whole [l..r]"
                       "E2 @ map (\<lambda>n. Page (whole n)) [e..tp]"]
          by (simp add: comp_def)
      qed
      then show ?thesis
        unfolding its_def
        using ok_upto [OF a1, of "E1 @ map (\<lambda>n. Page (whole n)) [l..r] @ E2
                                  @ map (\<lambda>n. Page (whole n)) [e..tp]"]
        by simp
    next
      case False
      then have empty: "[l..r] = []" by simp
      have notboth: "\<not> (bc + 1 < l \<and> r < tp - bc)"
        using False assms by (auto simp: l_def r_def)
      show ?thesis
      proof (cases "bc + 1 < l \<or> r < tp - bc")
        case True
        then have b: "e \<le> tp" "a + 1 < e"
          using assms h False by (auto simp: l_def r_def a_def e_def)
        have E: "E1 @ E2 = [Ellipsis]"
          using True notboth by (auto simp: E1_def E2_def)
        have "ellipses_ok (Page (whole a) # Ellipsis # map (\<lambda>n. Page (whole n)) [e..tp] @ [])"
          using ok_gap_upto [OF b(1) small(1), of "[]"] b(2) ok_upto [OF b(1), of "[]"] by simp
        then have "ellipses_ok (map (\<lambda>n. Page (whole n)) [1..a] @ (E1 @ E2)
                                @ map (\<lambda>n. Page (whole n)) [e..tp])"
          unfolding E
          using ok_upto [OF a1, of "Ellipsis # map (\<lambda>n. Page (whole n)) [e..tp] @ []"] by simp
        then show ?thesis
          unfolding its_def empty by simp
      next
        case False
        then have "E1 = []" "E2 = []" by (auto simp: E1_def E2_def)
        moreover have "ellipses_ok (map Page (map whole ([1..a] @ [e..tp])) @ [])"
          using ok_pages_append [of "map whole ([1..a] @ [e..tp])" "[]"] a1 by simp
        ultimately show ?thesis
          unfolding its_def empty by (simp add: comp_def)
      qed
    qed
  qed
  show ?thesis using shape pn srt dist sub one cur lst ok by blast
qed

theorem buildRange_numbers_witness:
  "\<exists>its ns.
     buildRange (whole 5) (whole 10) (whole 1) (whole 1) = Inr its \<and>
     pageNumbers its = map whole ns \<and>
     sorted_wrt (<) ns \<and> distinct ns \<and> set ns \<subseteq> {1..10} \<and>
     1 \<in> set ns \<and> 5 \<in> set ns \<and> 10 \<in> set ns \<and> ellipses_ok its"
  using buildRange_numbers [of 10 5 1 1] by simp

end
